theory Spec2Isabelle
  imports Complex_Main "HOL-Library.Sublist"
begin

section \<open>Strings, character classes and numbers of the host language\<close>

text \<open>
  A Python \<open>str\<close> is a sequence of Unicode code points and \<open>len\<close> counts code points, so a
  string is modelled as a list of code points (natural numbers), not as a list of bytes.
  String literals of \<open>nemo-server/main.py\<close> are written out as their code points; the
  Hangul syllables all lie in the block \<open>0xAC00 .. 0xD7A3\<close>.
\<close>

type_synonym pystr = "nat list"

text \<open>
  \<open>str.strip()\<close>, \<open>str.isspace()\<close> and the regular-expression class \<open>\s\<close> (for \<open>str\<close> patterns)
  all use the same test on a code point; these are the 29 code points for which it holds.
\<close>

definition whitespace_table :: "nat list" where
  "whitespace_table =
     [0x9, 0xA, 0xB, 0xC, 0xD, 0x1C, 0x1D, 0x1E, 0x1F, 0x20, 0x85, 0xA0, 0x1680,
      0x2000, 0x2001, 0x2002, 0x2003, 0x2004, 0x2005, 0x2006, 0x2007, 0x2008, 0x2009,
      0x200A, 0x2028, 0x2029, 0x202F, 0x205F, 0x3000]"

definition is_space :: "nat \<Rightarrow> bool" where
  "is_space c = (c \<in> set whitespace_table)"

text \<open>
  The class \<open>\d\<close> of a \<open>str\<close> pattern is the Unicode category Nd (decimal digit). Its members
  come in runs of ten, \<open>z .. z + 9\<close>; the table lists the code point \<open>z\<close> of each digit zero
  (Unicode 14, the character database of CPython 3.11).
\<close>

definition decimal_zeros :: "nat list" where
  "decimal_zeros =
     [0x30, 0x660, 0x6F0, 0x7C0, 0x966, 0x9E6, 0xA66, 0xAE6, 0xB66, 0xBE6, 0xC66, 0xCE6,
      0xD66, 0xDE6, 0xE50, 0xED0, 0xF20, 0x1040, 0x1090, 0x17E0, 0x1810, 0x1946, 0x19D0,
      0x1A80, 0x1A90, 0x1B50, 0x1BB0, 0x1C40, 0x1C50, 0xA620, 0xA8D0, 0xA900, 0xA9D0,
      0xA9F0, 0xAA50, 0xABF0, 0xFF10, 0x104A0, 0x10D30, 0x11066, 0x110F0, 0x11136,
      0x111D0, 0x112F0, 0x11450, 0x114D0, 0x11650, 0x116C0, 0x11730, 0x118E0, 0x11950,
      0x11C50, 0x11D50, 0x11DA0, 0x16A60, 0x16AC0, 0x16B50, 0x1D7CE, 0x1D7D8, 0x1D7E2,
      0x1D7EC, 0x1D7F6, 0x1E140, 0x1E2F0, 0x1E950, 0x1FBF0]"

definition is_digit :: "nat \<Rightarrow> bool" where
  "is_digit c = list_ex (\<lambda>z. z \<le> c \<and> c \<le> z + 9) decimal_zeros"

text \<open>
  Under \<open>re.IGNORECASE\<close> a lower-case ASCII letter of a pattern matches itself, its upper-case
  form, and for \<open>i\<close>, \<open>k\<close> and \<open>s\<close> the extra code points that case-fold to it (dotted and
  dotless i, the Kelvin sign, the long s).
\<close>

definition case_variants :: "nat \<Rightarrow> nat list" where
  "case_variants l =
     (if l = 0x69 then [0x69, 0x49, 0x130, 0x131]
      else if l = 0x6B then [0x6B, 0x4B, 0x212A]
      else if l = 0x73 then [0x73, 0x53, 0x17F]
      else if 0x61 \<le> l \<and> l \<le> 0x7A then [l, l - 0x20]
      else [l])"

text \<open>\<open>str.strip()\<close>: whitespace is removed at both ends.\<close>

definition strip :: "pystr \<Rightarrow> pystr" where
  "strip s = rev (dropWhile is_space (rev (dropWhile is_space s)))"

text \<open>\<open>str(n)\<close> for a non-negative integer: its decimal digits.\<close>

fun str_nat :: "nat \<Rightarrow> pystr" where
  "str_nat n = (if n < 10 then [0x30 + n] else str_nat (n div 10) @ [0x30 + n mod 10])"

text \<open>
  A Python \<open>float\<close> is a binary64 value: a rational number, an infinity or a NaN. Comparison
  of two floats is exact, so the order of the rationals they denote is the order of the floats;
  every comparison with a NaN is false.
\<close>

datatype pyfloat = Finite rat | PosInf | NegInf | NaN

fun float_less :: "pyfloat \<Rightarrow> pyfloat \<Rightarrow> bool" where
  "float_less NaN _ = False"
| "float_less _ NaN = False"
| "float_less (Finite a) (Finite b) = (a < b)"
| "float_less (Finite a) PosInf = True"
| "float_less (Finite a) NegInf = False"
| "float_less PosInf _ = False"
| "float_less NegInf (Finite b) = True"
| "float_less NegInf PosInf = True"
| "float_less NegInf NegInf = False"

text \<open>
  \<open>int(a / 4)\<close> for a non-negative integer \<open>a\<close>: the true division of two integers gives the
  binary64 value nearest to the exact quotient (ties to the even significand), and \<open>int\<close>
  truncates it. Dividing by 4 only changes the exponent, so the quotient is the integer \<open>a\<close>
  rounded to 53 significant bits, divided by 4. (A string is shorter than \<open>2 ^ 63\<close>, so the
  quotient never leaves the range of binary64.)
\<close>

fun bit_length :: "nat \<Rightarrow> nat" where
  "bit_length n = (if n = 0 then 0 else Suc (bit_length (n div 2)))"

definition round_binary64 :: "nat \<Rightarrow> nat" where
  "round_binary64 a =
     (if bit_length a \<le> 53 then a
      else
        let sh = bit_length a - 53;
            q = a div 2 ^ sh;
            r = a mod 2 ^ sh;
            q' = (if 2 ^ sh < 2 * r \<or> (2 * r = 2 ^ sh \<and> odd q) then q + 1 else q)
        in q' * 2 ^ sh)"

definition int_of_quarter :: "nat \<Rightarrow> nat" where
  "int_of_quarter a = round_binary64 a div 4"

section \<open>Regular-expression substitution\<close>

text \<open>
  \<open>re.sub(pattern, repl, string)\<close> scans the string from the left. At each position it asks
  whether the pattern matches there; a rule answers with the replacement text and the number
  of characters the match consumes. On a match the replacement is emitted and the scan
  continues behind the match; otherwise the character is copied. (An empty match emits the
  replacement and copies the character; no pattern of this program matches the empty string.)
\<close>

type_synonym rule = "pystr \<Rightarrow> (pystr \<times> nat) option"

fun re_sub :: "rule \<Rightarrow> pystr \<Rightarrow> pystr" where
  "re_sub m [] = (case m [] of None \<Rightarrow> [] | Some (out, n) \<Rightarrow> out)"
| "re_sub m (c # cs) =
     (case m (c # cs) of
        None \<Rightarrow> c # re_sub m cs
      | Some (out, n) \<Rightarrow>
          if n = 0 then out @ c # re_sub m cs else out @ re_sub m (drop (n - 1) cs))"

text \<open>A pattern without metacharacters matches exactly its own text.\<close>

definition literal :: "pystr \<Rightarrow> pystr \<Rightarrow> rule" where
  "literal p r t = (if prefix p t then Some (r, length p) else None)"

text \<open>
  The two abbreviation patterns are \<open>pf\s*=?\s*(\d)\<close> and \<open>cos\s*=?\s*(\d)\<close>, both with
  \<open>re.IGNORECASE\<close>, replaced by a fixed text followed by group 1. The classes \<open>\s\<close>, \<open>=\<close> and
  \<open>\d\<close> are pairwise disjoint, so the greedy match is the only candidate: the letters, all the
  whitespace that follows, an optional \<open>=\<close>, all the whitespace that follows, and then a digit
  (backtracking into a run of whitespace leaves a whitespace character where \<open>=\<close> or the
  digit would have to be).
\<close>

fun match_ci :: "pystr \<Rightarrow> pystr \<Rightarrow> pystr option" where
  "match_ci [] t = Some t"
| "match_ci (l # ls) [] = None"
| "match_ci (l # ls) (c # cs) = (if c \<in> set (case_variants l) then match_ci ls cs else None)"

definition skip_equals :: "pystr \<Rightarrow> pystr" where
  "skip_equals t = (case t of [] \<Rightarrow> [] | c # cs \<Rightarrow> if c = 0x3D then cs else c # cs)"

definition abbrev_tail :: "pystr \<Rightarrow> (nat \<times> pystr) option" where
  "abbrev_tail t =
     (case dropWhile is_space (skip_equals (dropWhile is_space t)) of
        [] \<Rightarrow> None
      | d # rest \<Rightarrow> if is_digit d then Some (d, rest) else None)"

definition abbrev :: "pystr \<Rightarrow> pystr \<Rightarrow> rule" where
  "abbrev letters out t =
     (case match_ci letters t of
        None \<Rightarrow> None
      | Some t1 \<Rightarrow>
          (case abbrev_tail t1 of
             None \<Rightarrow> None
           | Some (d, rest) \<Rightarrow> Some (out @ [d], length t - length rest)))"

text \<open>The pattern \<open>\s+\<close>, replaced by one space: a maximal run of whitespace.\<close>

definition spaces :: rule where
  "spaces t =
     (let n = length (takeWhile is_space t) in if n = 0 then None else Some ([0x20], n))"

text \<open>
  \<open>re.search\<close> for an alternation of literal texts finds a match iff one of the alternatives
  occurs in the string. The blocked patterns are searched with \<open>re.IGNORECASE\<close>, which changes
  nothing for them: their characters are Hangul syllables and the digits 1 and 9, none of
  which has a case variant.
\<close>

definition re_search_alternatives :: "pystr list \<Rightarrow> pystr \<Rightarrow> bool" where
  "re_search_alternatives alts t = list_ex (\<lambda>a. sublist a t) alts"

section \<open>Configuration\<close>

text \<open>\<open>INPUT_RAILS\<close>: the blocked patterns, each an alternation, and the limits.\<close>

definition blocked_patterns :: "pystr list list" where
  "blocked_patterns =
     [[[0xC695, 0xC124], [0xBE44, 0xC18D, 0xC5B4], [0xACF5, 0xACA9, 0xC801]],
      [[0xAC1C, 0xC778, 0xC815, 0xBCF4], [0xC8FC, 0xBBFC, 0xB4F1, 0xB85D],
       [0xC804, 0xD654, 0xBC88, 0xD638], [0xC8FC, 0xC18C]],
      [[0xD574, 0xD0B9], [0xD06C, 0xB798, 0xD0B9], [0xBD88, 0xBC95]],
      [[0xC131, 0xC801], [0xC74C, 0xB780], [0x31, 0x39, 0xAE08]]]"

definition allowed_topics :: "pystr list" where
  "allowed_topics =
     [[0xC804, 0xAE30, 0xC124, 0xBE44], [0xC804, 0xAE30, 0xACF5, 0xC0AC],
      [0xC804, 0xB825, 0xACC4, 0xD1B5], [0xC2DC, 0xD000, 0xC2A4], [0x50, 0x4C, 0x43],
      [0xC870, 0xBA85], [0xC5ED, 0xB960], [0xBCC0, 0xC555, 0xAE30], [0xC811, 0xC9C0],
      [0x4B, 0x45, 0x43], [0xC804, 0xAE30, 0xAE30, 0xC0AC], [0xC218, 0xBCC0, 0xC804],
      [0xBC30, 0xC120], [0xB2E8, 0xB77D], [0xACFC, 0xC804, 0xB958], [0xB204, 0xC804],
      [0xCF58, 0xB374, 0xC11C], [0xC784, 0xD53C, 0xB358, 0xC2A4],
      [0xC804, 0xC555, 0xAC15, 0xD558], [0xAD11, 0xC18D, 0xBC95], [0xCD95, 0xC804, 0xC9C0],
      [0xD0DC, 0xC591, 0xAD11], [0xCC28, 0xB2E8, 0xAE30],
      [0xBCF4, 0xD638, 0xACC4, 0xC804, 0xAE30], [0xB2E8, 0xC120, 0xB3C4],
      [0xACB0, 0xC120, 0xB3C4], [0xC81C, 0xC5B4, 0xD68C, 0xB85C]]"

definition min_length :: nat where
  "min_length = 3"

definition max_length :: nat where
  "max_length = 2000"

definition max_size_bytes :: nat where
  "max_size_bytes = 10 * 1024 * 1024"

text \<open>
  \<open>OUTPUT_RAILS\<close>. The float literal \<open>0.7\<close> denotes the binary64 value
  \<open>3152519739159347 / 2 ^ 52\<close>.
\<close>

definition min_confidence :: pyfloat where
  "min_confidence = Finite (3152519739159347 / 4503599627370496)"

definition required_fields :: "pystr list" where
  "required_fields =
     [[0x61, 0x6E, 0x73, 0x77, 0x65, 0x72], [0x73, 0x74, 0x65, 0x70, 0x73],
      [0x66, 0x6F, 0x72, 0x6D, 0x75, 0x6C, 0x61, 0x73]]"

text \<open>
  The units \<open>V\<close>, \<open>A\<close>, \<open>W\<close>, ohm (capital omega), \<open>F\<close>, \<open>H\<close>, \<open>lx\<close>, \<open>lm\<close>, \<open>cd\<close>, \<open>m\<close>,
  \<open>mm\<close> squared, \<open>kVA\<close>, \<open>kVar\<close>, \<open>kW\<close> and the percent sign.
\<close>

definition si_units :: "pystr list" where
  "si_units =
     [[0x56], [0x41], [0x57], [0x3A9], [0x46], [0x48], [0x6C, 0x78], [0x6C, 0x6D],
      [0x63, 0x64], [0x6D], [0x6D, 0x6D, 0xB2], [0x6B, 0x56, 0x41],
      [0x6B, 0x56, 0x61, 0x72], [0x6B, 0x57], [0x25]]"

text \<open>
  \<open>UNIT_MAPPINGS\<close>, in the order of the source: Korean unit names and their symbols
  (\<open>lx\<close>, \<open>lm\<close>, \<open>cd\<close>, \<open>kW\<close>, \<open>W\<close>, \<open>V\<close>, \<open>A\<close>, capital omega, \<open>m\<close> squared twice,
  \<open>kVA\<close> twice, \<open>kVar\<close> twice, the percent sign twice).
\<close>

definition UNIT_MAPPINGS :: "(pystr \<times> pystr) list" where
  "UNIT_MAPPINGS =
     [([0xB7ED, 0xC2A4], [0x6C, 0x78]),
      ([0xB8E8, 0xBA58], [0x6C, 0x6D]),
      ([0xCE78, 0xB378, 0xB77C], [0x63, 0x64]),
      ([0xD0AC, 0xB85C, 0xC640, 0xD2B8], [0x6B, 0x57]),
      ([0xC640, 0xD2B8], [0x57]),
      ([0xBCFC, 0xD2B8], [0x56]),
      ([0xC554, 0xD398, 0xC5B4], [0x41]),
      ([0xC634], [0x3A9]),
      ([0xC81C, 0xACF1, 0xBBF8, 0xD130], [0x6D, 0xB2]),
      ([0xD3C9, 0xBC29, 0xBBF8, 0xD130], [0x6D, 0xB2]),
      ([0xD0A4, 0xB85C, 0xBC14], [0x6B, 0x56, 0x41]),
      ([0xCF00, 0xC774, 0xBE0C, 0xC774, 0xC5D0, 0xC774], [0x6B, 0x56, 0x41]),
      ([0xD0A4, 0xB85C, 0xBC14, 0xB974], [0x6B, 0x56, 0x61, 0x72]),
      ([0xCF00, 0xC774, 0xBC14, 0xB974], [0x6B, 0x56, 0x61, 0x72]),
      ([0xD37C, 0xC13C, 0xD2B8], [0x25]),
      ([0xD504, 0xB85C], [0x25])]"

text \<open>
  \<open>TYPO_MAPPINGS\<close>: three misspellings and their corrections, then the spelled-out names of
  cosine (twice), tangent, pi and root with their symbols (\<open>cos\<close> theta, \<open>tan\<close> theta, the
  letter pi, the radical sign).
\<close>

definition TYPO_MAPPINGS :: "(pystr \<times> pystr) list" where
  "TYPO_MAPPINGS =
     [([0xC5ED, 0xC728], [0xC5ED, 0xB960]),
      ([0xC870, 0xBA85, 0xC728], [0xC870, 0xBA85, 0xB960]),
      ([0xC778, 0xD53C, 0xB358, 0xC2A4], [0xC784, 0xD53C, 0xB358, 0xC2A4]),
      ([0xCF54, 0xC0AC, 0xC778], [0x63, 0x6F, 0x73, 0x3B8]),
      ([0xCF54, 0xC2F8, 0xC778], [0x63, 0x6F, 0x73, 0x3B8]),
      ([0xD0C4, 0xC820, 0xD2B8], [0x74, 0x61, 0x6E, 0x3B8]),
      ([0xD30C, 0xC774], [0x3C0]),
      ([0xB8E8, 0xD2B8], [0x221A])]"

text \<open>The letters and replacement texts of the two abbreviation rules.\<close>

definition pf_letters :: pystr where
  "pf_letters = [0x70, 0x66]"

definition pf_replacement :: pystr where
  "pf_replacement = [0xC5ED, 0xB960, 0x20]"

definition cos_letters :: pystr where
  "cos_letters = [0x63, 0x6F, 0x73]"

definition cos_replacement :: pystr where
  "cos_replacement = [0x63, 0x6F, 0x73, 0x3B8, 0x20, 0x3D, 0x20]"

section \<open>Helper functions\<close>

definition apply_mappings :: "(pystr \<times> pystr) list \<Rightarrow> pystr \<Rightarrow> pystr" where
  "apply_mappings ms s = foldl (\<lambda>normalized (pattern, replacement).
       re_sub (literal pattern replacement) normalized) s ms"

definition normalize_text :: "pystr \<Rightarrow> pystr" where
  "normalize_text text =
     (let normalized = strip text;
          normalized = apply_mappings UNIT_MAPPINGS normalized;
          normalized = apply_mappings TYPO_MAPPINGS normalized;
          normalized = re_sub (abbrev pf_letters pf_replacement) normalized;
          normalized = re_sub (abbrev cos_letters cos_replacement) normalized;
          normalized = strip (re_sub spaces normalized)
      in normalized)"

text \<open>The fixed message of \<open>check_blocked_patterns\<close> ("inappropriate content is included").\<close>

definition blocked_message :: pystr where
  "blocked_message =
     [0xBD80, 0xC801, 0xC808, 0xD55C, 0x20, 0xB0B4, 0xC6A9, 0xC774, 0x20, 0xD3EC, 0xD568,
      0xB418, 0xC5B4, 0x20, 0xC788, 0xC2B5, 0xB2C8, 0xB2E4, 0x2E]"

fun first_blocked :: "pystr list list \<Rightarrow> pystr \<Rightarrow> pystr option" where
  "first_blocked [] t = None"
| "first_blocked (pattern # patterns) t =
     (if re_search_alternatives pattern t then Some blocked_message
      else first_blocked patterns t)"

definition check_blocked_patterns :: "pystr \<Rightarrow> pystr option" where
  "check_blocked_patterns t = first_blocked blocked_patterns t"

definition check_relevance :: "pystr \<Rightarrow> bool" where
  "check_relevance t = list_ex (\<lambda>topic. sublist topic t) allowed_topics"

definition estimate_base64_size :: "pystr \<Rightarrow> nat" where
  "estimate_base64_size base64_str = int_of_quarter (length base64_str * 3)"

section \<open>Input validation\<close>

record InputValidationRequest =
  "text" :: "pystr option"
  image_base64 :: "pystr option"

text \<open>Truth value of an \<open>Optional[str]\<close>: \<open>None\<close> and the empty string are false.\<close>

fun truthy_str :: "pystr option \<Rightarrow> bool" where
  "truthy_str None = False"
| "truthy_str (Some s) = (s \<noteq> [])"

text \<open>
  The error messages: question too short, question too long (at most 2000 characters),
  image larger than 10MB, and the request to enter a problem text or an image.
\<close>

definition too_short_message :: pystr where
  "too_short_message =
     [0xC9C8, 0xBB38, 0xC774, 0x20, 0xB108, 0xBB34, 0x20, 0xC9E7, 0xC2B5, 0xB2C8, 0xB2E4,
      0x2E, 0x20, 0xC880, 0x20, 0xB354, 0x20, 0xAD6C, 0xCCB4, 0xC801, 0xC73C, 0xB85C, 0x20,
      0xC785, 0xB825, 0xD574, 0xC8FC, 0xC138, 0xC694, 0x2E]"

definition too_long_message :: pystr where
  "too_long_message =
     [0xC9C8, 0xBB38, 0xC774, 0x20, 0xB108, 0xBB34, 0x20, 0xAE41, 0xB2C8, 0xB2E4, 0x2E, 0x20,
      0x32, 0x30, 0x30, 0x30, 0xC790, 0x20, 0xC774, 0xD558, 0xB85C, 0x20, 0xC785, 0xB825,
      0xD574, 0xC8FC, 0xC138, 0xC694, 0x2E]"

definition image_too_large_message :: pystr where
  "image_too_large_message =
     [0xC774, 0xBBF8, 0xC9C0, 0x20, 0xD06C, 0xAE30, 0xAC00, 0x20, 0x31, 0x30, 0x4D, 0x42,
      0xB97C, 0x20, 0xCD08, 0xACFC, 0xD569, 0xB2C8, 0xB2E4, 0x2E]"

definition must_supply_message :: pystr where
  "must_supply_message =
     [0xBB38, 0xC81C, 0x20, 0xD14D, 0xC2A4, 0xD2B8, 0x20, 0xB610, 0xB294, 0x20, 0xC774,
      0xBBF8, 0xC9C0, 0xB97C, 0x20, 0xC785, 0xB825, 0xD574, 0xC8FC, 0xC138, 0xC694, 0x2E]"

text \<open>
  The three blocks of \<open>validate_input\<close>, each taking the error list it found and returning
  the list it leaves. The relevance of the text is computed and logged only.
\<close>

definition text_validation :: "pystr \<Rightarrow> pystr list \<Rightarrow> pystr list \<times> pystr" where
  "text_validation t errors =
     (let normalized_text = normalize_text t;
          errors = (if length normalized_text < min_length
                    then errors @ [too_short_message] else errors);
          errors = (if length normalized_text > max_length
                    then errors @ [too_long_message] else errors);
          blocked_error = check_blocked_patterns normalized_text;
          errors = (if truthy_str blocked_error
                    then errors @ [the blocked_error] else errors);
          is_relevant = check_relevance normalized_text
      in (errors, normalized_text))"

definition image_validation :: "pystr \<Rightarrow> pystr list \<Rightarrow> pystr list" where
  "image_validation base64_str errors =
     (let estimated_size = estimate_base64_size base64_str
      in if estimated_size > max_size_bytes
         then errors @ [image_too_large_message] else errors)"

record InputValidationResponse =
  valid :: bool
  errors :: "pystr list"
  normalized_text :: "pystr option"

definition validate_input :: "InputValidationRequest \<Rightarrow> InputValidationResponse" where
  "validate_input request =
     (let errors = [];
          normalized_text = None;
          (errors, normalized_text) =
             (if truthy_str (text request)
              then (let (errors, normalized) = text_validation (the (text request)) errors
                    in (errors, Some normalized))
              else (errors, normalized_text));
          errors = (if truthy_str (image_base64 request)
                    then image_validation (the (image_base64 request)) errors
                    else errors);
          errors = (if \<not> truthy_str (text request) \<and> \<not> truthy_str (image_base64 request)
                    then errors @ [must_supply_message] else errors);
          is_valid = (length errors = 0)
      in \<lparr>valid = is_valid, errors = errors, normalized_text = normalized_text\<rparr>)"

section \<open>Output validation\<close>

text \<open>
  A solution step is a \<open>dict\<close> decoded from JSON: a finite map from keys to JSON values.
  \<open>step.get(key)\<close> is the value or \<open>None\<close>, and only its truth value is used.
\<close>

datatype json =
    JNull
  | JBool bool
  | JInt int
  | JFloat pyfloat
  | JStr pystr
  | JArr "json list"
  | JObj "(pystr \<times> json) list"

fun truthy_json :: "json \<Rightarrow> bool" where
  "truthy_json JNull = False"
| "truthy_json (JBool b) = b"
| "truthy_json (JInt i) = (i \<noteq> 0)"
| "truthy_json (JFloat f) = (f \<noteq> Finite 0)"
| "truthy_json (JStr s) = (s \<noteq> [])"
| "truthy_json (JArr xs) = (xs \<noteq> [])"
| "truthy_json (JObj kvs) = (kvs \<noteq> [])"

type_synonym step = "pystr \<rightharpoonup> json"

definition truthy_get :: "step \<Rightarrow> pystr \<Rightarrow> bool" where
  "truthy_get s key = (case s key of None \<Rightarrow> False | Some v \<Rightarrow> truthy_json v)"

record OutputValidationRequest =
  answer :: "pystr option"
  steps :: "step list option"
  formulas :: "pystr list option"
  confidence :: "pyfloat option"
  related_kec :: "pystr list option"

definition answer_key :: pystr where
  "answer_key = [0x61, 0x6E, 0x73, 0x77, 0x65, 0x72]"

definition steps_key :: pystr where
  "steps_key = [0x73, 0x74, 0x65, 0x70, 0x73]"

definition formulas_key :: pystr where
  "formulas_key = [0x66, 0x6F, 0x72, 0x6D, 0x75, 0x6C, 0x61, 0x73]"

definition title_key :: pystr where
  "title_key = [0x74, 0x69, 0x74, 0x6C, 0x65]"

definition content_key :: pystr where
  "content_key = [0x63, 0x6F, 0x6E, 0x74, 0x65, 0x6E, 0x74]"

fun truthy_list :: "'a list option \<Rightarrow> bool" where
  "truthy_list None = False"
| "truthy_list (Some xs) = (xs \<noteq> [])"

text \<open>
  Truth value of \<open>getattr(request, field, None)\<close>; a name that is not an attribute of the
  request gives \<open>None\<close>.
\<close>

definition truthy_attr :: "OutputValidationRequest \<Rightarrow> pystr \<Rightarrow> bool" where
  "truthy_attr request field =
     (if field = answer_key then truthy_str (answer request)
      else if field = steps_key then truthy_list (steps request)
      else if field = formulas_key then truthy_list (formulas request)
      else False)"

text \<open>
  The warnings: a field is missing (the field name, then the text), the answer seems to
  lack a unit, title or content of step \<open>i + 1\<close> is missing, and the confidence is below
  \<open>0.7 * 100\<close> percent, which the f-string prints as \<open>70.0\<close>.
\<close>

definition field_missing_suffix :: pystr where
  "field_missing_suffix =
     [0x20, 0xD544, 0xB4DC, 0xAC00, 0x20, 0xB204, 0xB77D, 0xB418, 0xC5C8, 0xC2B5, 0xB2C8,
      0xB2E4, 0x2E]"

definition unit_missing_message :: pystr where
  "unit_missing_message =
     [0xB2F5, 0xC5D0, 0x20, 0xB2E8, 0xC704, 0xAC00, 0x20, 0xB204, 0xB77D, 0xB41C, 0x20,
      0xAC83, 0x20, 0xAC19, 0xC2B5, 0xB2C8, 0xB2E4, 0x2E]"

definition step_prefix :: pystr where
  "step_prefix = [0xD480, 0xC774, 0x20, 0xB2E8, 0xACC4, 0x20]"

definition step_suffix :: pystr where
  "step_suffix =
     [0xC758, 0x20, 0xC81C, 0xBAA9, 0x20, 0xB610, 0xB294, 0x20, 0xB0B4, 0xC6A9, 0xC774, 0x20,
      0xB204, 0xB77D, 0xB418, 0xC5C8, 0xC2B5, 0xB2C8, 0xB2E4, 0x2E]"

definition low_confidence_message :: pystr where
  "low_confidence_message =
     [0xC2E0, 0xB8B0, 0xB3C4, 0xAC00, 0x20] @ [0x37, 0x30, 0x2E, 0x30] @
     [0x25, 0x20, 0xBBF8, 0xB9CC, 0xC785, 0xB2C8, 0xB2E4, 0x2E]"

fun required_fields_check ::
  "OutputValidationRequest \<Rightarrow> pystr list \<Rightarrow> pystr list \<Rightarrow> pystr list" where
  "required_fields_check request [] warnings = warnings"
| "required_fields_check request (field # rest) warnings =
     required_fields_check request rest
       (if \<not> truthy_attr request field
        then warnings @ [field @ field_missing_suffix] else warnings)"

definition answer_check :: "pystr \<Rightarrow> pystr list \<Rightarrow> pystr list" where
  "answer_check a warnings =
     (let has_unit = list_ex (\<lambda>unit. sublist unit a) si_units;
          has_number = list_ex is_digit a
      in if has_number \<and> \<not> has_unit
         then warnings @ [unit_missing_message] else warnings)"

fun steps_check :: "nat \<Rightarrow> step list \<Rightarrow> pystr list \<Rightarrow> pystr list" where
  "steps_check i [] warnings = warnings"
| "steps_check i (s # ss) warnings =
     steps_check (i + 1) ss
       (if \<not> truthy_get s title_key \<or> \<not> truthy_get s content_key
        then warnings @ [step_prefix @ str_nat (i + 1) @ step_suffix] else warnings)"

text \<open>
  The response of \<open>validate_output\<close>. Its field \<open>valid\<close> is written \<open>out_valid\<close>, since
  the field \<open>valid\<close> of the input response already has that name.
\<close>

record OutputValidationResponse =
  out_valid :: bool
  warnings :: "pystr list"
  corrections :: "pystr list"

definition validate_output :: "OutputValidationRequest \<Rightarrow> OutputValidationResponse" where
  "validate_output request =
     (let warnings = [];
          corrections = [];
          warnings = required_fields_check request required_fields warnings;
          warnings = (if truthy_str (answer request)
                      then answer_check (the (answer request)) warnings else warnings);
          warnings = (if truthy_list (steps request)
                      then steps_check 0 (the (steps request)) warnings else warnings);
          warnings = (if confidence request \<noteq> None
                         \<and> float_less (the (confidence request)) min_confidence
                      then warnings @ [low_confidence_message] else warnings);
          is_valid = (length corrections = 0)
      in \<lparr>out_valid = is_valid, warnings = warnings, corrections = corrections\<rparr>)"

section \<open>Notions used in the proofs\<close>

text \<open>
  The errors the text block and the image block of \<open>validate_input\<close> contribute, as
  functions of the normalized text and of the image string.
\<close>

definition text_errors :: "pystr \<Rightarrow> pystr list" where
  "text_errors n =
     (if length n < 3 then [too_short_message] else []) @
     (if 2000 < length n then [too_long_message] else []) @
     (if \<exists>p\<in>set blocked_patterns. re_search_alternatives p n then [blocked_message] else [])"

definition image_errors :: "pystr \<Rightarrow> pystr list" where
  "image_errors b =
     (if max_size_bytes < estimate_base64_size b then [image_too_large_message] else [])"

text \<open>
  \<open>re.search\<close> for a rule: the pattern matches at some position of the string.
\<close>

fun re_search :: "rule \<Rightarrow> pystr \<Rightarrow> bool" where
  "re_search m [] = (m [] \<noteq> None)"
| "re_search m (c # cs) = (m (c # cs) \<noteq> None \<or> re_search m cs)"

text \<open>
  A rule is proper when its matches are non-empty and lie within the text, and its
  replacements are non-empty: every rule of the normalizer is.
\<close>

definition proper :: "rule \<Rightarrow> bool" where
  "proper m = (\<forall>t out n. m t = Some (out, n) \<longrightarrow> 0 < n \<and> n \<le> length t \<and> out \<noteq> [])"

text \<open>
  A replacement text \<open>out\<close> is clear of a word \<open>w\<close> when inserting \<open>out\<close> into a string
  cannot create an occurrence of \<open>w\<close>: no occurrence of \<open>w\<close> can begin inside \<open>out\<close>, and
  none that begins before \<open>out\<close> can reach into it.
\<close>

definition clear :: "pystr \<Rightarrow> pystr \<Rightarrow> bool" where
  "clear w out =
     (out \<noteq> [] \<and> hd out \<notin> set (tl w)
      \<and> list_all (\<lambda>u. u = [] \<or> (\<not> prefix w u \<and> \<not> prefix u w)) (suffixes out))"

text \<open>
  A table of mappings is in order when no pattern and no replacement is empty; a word is
  clear of a table when every replacement of the table is clear of it.
\<close>

definition mappings_ok :: "(pystr \<times> pystr) list \<Rightarrow> bool" where
  "mappings_ok ms = list_all (\<lambda>(p, r). p \<noteq> [] \<and> r \<noteq> []) ms"

definition clear_of :: "pystr \<Rightarrow> (pystr \<times> pystr) list \<Rightarrow> bool" where
  "clear_of w ms = list_all (\<lambda>(p, r). clear w r) ms"


text \<open>
  The characters an abbreviation pattern admits between its letters and the end of its
  match (whitespace, \<open>=\<close>, a digit), and the words the pattern can match: the letters in
  any case, then at least one such character.
\<close>

definition gap_char :: "nat \<Rightarrow> bool" where
  "gap_char c = (is_space c \<or> c = 0x3D \<or> is_digit c)"

definition abbrev_word :: "pystr \<Rightarrow> pystr \<Rightarrow> bool" where
  "abbrev_word letters w =
     (case match_ci letters w of
        None \<Rightarrow> False
      | Some mid \<Rightarrow> mid \<noteq> [] \<and> list_all gap_char mid)"

text \<open>The two abbreviation rules and the list of all unit and typo patterns.\<close>

definition pf_rule :: rule where
  "pf_rule = abbrev pf_letters pf_replacement"

definition cos_rule :: rule where
  "cos_rule = abbrev cos_letters cos_replacement"

definition all_patterns :: "pystr list" where
  "all_patterns = map fst (UNIT_MAPPINGS @ TYPO_MAPPINGS)"

text \<open>
  A string is tidy when its only whitespace is single spaces (\<open>0x20\<close>), none next to
  another: the strings that \<open>\s+\<close> replaced by a space leaves unchanged.
\<close>

fun tidy :: "pystr \<Rightarrow> bool" where
  "tidy [] = True"
| "tidy (c # cs) = ((is_space c \<longrightarrow> c = 0x20 \<and> (cs = [] \<or> \<not> is_space (hd cs))) \<and> tidy cs)"

text \<open>
  The normal forms: stripped, free of every unit and typo pattern, free of matches of the two
  abbreviation patterns, and tidy.
\<close>

definition normal :: "pystr \<Rightarrow> bool" where
  "normal s =
     (strip s = s \<and> list_all (\<lambda>p. \<not> sublist p s) all_patterns
      \<and> \<not> re_search pf_rule s \<and> \<not> re_search cos_rule s \<and> tidy s)"

text \<open>
  A table of mappings keeps a word \<open>w\<close> when no pattern of the table can match a text that
  overlaps an occurrence of \<open>w\<close>: no pattern starts with a character of \<open>w\<close> or contains
  the first character of \<open>w\<close>.
\<close>

definition keeps :: "pystr \<Rightarrow> (pystr \<times> pystr) list \<Rightarrow> bool" where
  "keeps w ms = list_all (\<lambda>(p, r). p \<noteq> [] \<and> r \<noteq> [] \<and> hd p \<notin> set w \<and> hd w \<notin> set p) ms"

text \<open>A text of 2003 characters that contains a blocked word (the word for hacking).\<close>

definition long_blocked_text :: pystr where
  "long_blocked_text = [0xD574, 0xD0B9] @ replicate 2001 0x61"

text \<open>
  \<open>str.lstrip()\<close> and \<open>str.rstrip()\<close>, the two halves of \<open>strip\<close>; the stages of
  \<open>normalize_text\<close> between its two calls of \<open>strip\<close>; and \<open>sep.join(parts)\<close>.
\<close>

definition lstrip :: "pystr \<Rightarrow> pystr" where
  "lstrip s = dropWhile is_space s"

definition rstrip :: "pystr \<Rightarrow> pystr" where
  "rstrip s = rev (dropWhile is_space (rev s))"

definition rewrite_stages :: "pystr \<Rightarrow> pystr" where
  "rewrite_stages s =
     re_sub spaces (re_sub (abbrev cos_letters cos_replacement)
       (re_sub (abbrev pf_letters pf_replacement)
         (apply_mappings TYPO_MAPPINGS (apply_mappings UNIT_MAPPINGS s))))"

fun join :: "pystr \<Rightarrow> pystr list \<Rightarrow> pystr" where
  "join sep [] = []"
| "join sep [u] = u"
| "join sep (u # v # us) = u @ sep @ join sep (v # us)"

section \<open>The validators in closed form\<close>

lemma messages_distinct:
  "too_short_message \<noteq> too_long_message" "too_short_message \<noteq> blocked_message"
  "too_short_message \<noteq> image_too_large_message" "too_short_message \<noteq> must_supply_message"
  "too_long_message \<noteq> blocked_message" "too_long_message \<noteq> image_too_large_message"
  "too_long_message \<noteq> must_supply_message" "blocked_message \<noteq> image_too_large_message"
  "blocked_message \<noteq> must_supply_message" "image_too_large_message \<noteq> must_supply_message"
  by (simp_all add: too_short_message_def too_long_message_def blocked_message_def
      image_too_large_message_def must_supply_message_def)

lemma first_blocked_eq:
  "first_blocked ps t =
     (if \<exists>p\<in>set ps. re_search_alternatives p t then Some blocked_message else None)"
  by (induction ps) auto

lemma blocked_message_nonempty: "blocked_message \<noteq> []"
  by (simp add: blocked_message_def)

lemma text_validation_eq:
  "text_validation t es = (es @ text_errors (normalize_text t), normalize_text t)"
  by (simp add: text_validation_def text_errors_def Let_def min_length_def max_length_def
      check_blocked_patterns_def first_blocked_eq blocked_message_nonempty)

lemma image_validation_eq: "image_validation b es = es @ image_errors b"
  by (simp add: image_validation_def image_errors_def Let_def)

lemma validate_input_errors:
  "errors (validate_input request) =
     (if truthy_str (text request) then text_errors (normalize_text (the (text request)))
      else []) @
     (if truthy_str (image_base64 request) then image_errors (the (image_base64 request))
      else []) @
     (if \<not> truthy_str (text request) \<and> \<not> truthy_str (image_base64 request)
      then [must_supply_message] else [])"
  by (simp add: validate_input_def Let_def text_validation_eq image_validation_eq)

lemma validate_input_valid:
  "valid (validate_input request) = (errors (validate_input request) = [])"
  by (simp add: validate_input_def Let_def split: prod.splits)

lemma validate_input_normalized:
  "normalized_text (validate_input request) =
     (if truthy_str (text request) then Some (normalize_text (the (text request))) else None)"
  by (simp add: validate_input_def Let_def text_validation_eq)

lemma strip_Nil: "strip [] = []"
  by (simp add: strip_def)

lemma normalize_text_Nil: "normalize_text [] = []"
  by (simp add: normalize_text_def strip_Nil apply_mappings_def UNIT_MAPPINGS_def
      TYPO_MAPPINGS_def literal_def abbrev_def spaces_def pf_letters_def cos_letters_def Let_def)

lemma blocked_Nil: "\<not> (\<exists>p\<in>set blocked_patterns. re_search_alternatives p [])"
  by (simp add: blocked_patterns_def re_search_alternatives_def)

text \<open>Evaluating the normalizer on a concrete string unfolds these definitions.\<close>

lemmas normalize_eval =
  normalize_text_def apply_mappings_def UNIT_MAPPINGS_def TYPO_MAPPINGS_def literal_def
  abbrev_def spaces_def pf_letters_def cos_letters_def pf_replacement_def
  cos_replacement_def Let_def strip_def is_space_def whitespace_table_def case_variants_def
  abbrev_tail_def skip_equals_def is_digit_def decimal_zeros_def

lemma normalize_text_a: "normalize_text [0x61] = [0x61]"
  by (simp add: normalize_eval)

lemma normalize_text_hacking: "normalize_text [0xD574, 0xD0B9] = [0xD574, 0xD0B9]"
  by (simp add: normalize_eval)

lemma hacking_blocked:
  "\<exists>p\<in>set blocked_patterns. re_search_alternatives p [0xD574, 0xD0B9]"
  by (simp add: blocked_patterns_def re_search_alternatives_def sublist_Cons_right)

section \<open>Output validation never invalidates\<close>

text \<open>
  Claim C1. For every output-validation request, whatever fields are present or absent,
  \<open>validate_output\<close> returns a verdict whose list of corrections is empty and whose
  \<open>valid\<close> flag is true: no check of the function adds a correction.
\<close>

theorem validate_output_always_valid:
  "corrections (validate_output request) = [] \<and> out_valid (validate_output request)"
  by (simp add: validate_output_def Let_def)

theorem validate_output_always_valid_witness:
  "corrections (validate_output
      \<lparr>answer = Some [0x32, 0x35, 0x30], steps = Some [], formulas = None,
       confidence = Some (Finite (1 / 2)), related_kec = None\<rparr>) = []
   \<and> out_valid (validate_output
      \<lparr>answer = Some [0x32, 0x35, 0x30], steps = Some [], formulas = None,
       confidence = Some (Finite (1 / 2)), related_kec = None\<rparr>)"
  by (rule validate_output_always_valid)

section \<open>Input validation: single checks\<close>

text \<open>
  Claim C2, as the source has it. The claim speaks of every request in which a text value is
  supplied; the empty string is a text value whose normalized form has length 0, but
  \<open>validate_input\<close> tests the truth value of the text and so skips the text checks for
  it. With an image beside the empty text the verdict is even valid.
\<close>

theorem empty_text_not_too_short:
  "text \<lparr>text = Some [], image_base64 = Some [0x41, 0x41, 0x41, 0x41]\<rparr> = Some []
   \<and> length (normalize_text []) < 3
   \<and> valid (validate_input \<lparr>text = Some [], image_base64 = Some [0x41, 0x41, 0x41, 0x41]\<rparr>)
   \<and> too_short_message \<notin> set (errors (validate_input
         \<lparr>text = Some [], image_base64 = Some [0x41, 0x41, 0x41, 0x41]\<rparr>))"
  by (simp add: validate_input_valid validate_input_errors normalize_text_Nil image_errors_def
      estimate_base64_size_def int_of_quarter_def round_binary64_def max_size_bytes_def)

text \<open>
  Claim C2, amended: for every request whose text is a non-empty string with a normalized
  form shorter than 3 characters, the verdict is invalid and the errors contain the
  "too short" message.
\<close>

theorem too_short_text_rejected:
  assumes "text request = Some t" and "t \<noteq> []" and "length (normalize_text t) < 3"
  shows "\<not> valid (validate_input request)
       \<and> too_short_message \<in> set (errors (validate_input request))"
  using assms by (simp add: validate_input_valid validate_input_errors text_errors_def)

theorem too_short_text_rejected_witness:
  "[0x61] \<noteq> ([] :: pystr) \<and> length (normalize_text [0x61]) < 3
   \<and> \<not> valid (validate_input \<lparr>text = Some [0x61], image_base64 = None\<rparr>)
   \<and> too_short_message \<in> set (errors (validate_input
         \<lparr>text = Some [0x61], image_base64 = None\<rparr>))"
  using too_short_text_rejected[of "\<lparr>text = Some [0x61], image_base64 = None\<rparr>" "[0x61]"]
  by (simp add: normalize_text_a)

text \<open>
  Claim C4. For every request whose text, after normalization, matches a blocked pattern,
  the verdict is invalid and the fixed inappropriate-content message occurs exactly once
  among the errors, however many blocked patterns match and whatever other violations
  (length, image size) the request has.
\<close>

theorem blocked_text_rejected_once:
  assumes "text request = Some t"
    and "\<exists>p\<in>set blocked_patterns. re_search_alternatives p (normalize_text t)"
  shows "\<not> valid (validate_input request)
       \<and> count_list (errors (validate_input request)) blocked_message = 1"
proof -
  have "t \<noteq> []"
    using assms(2) blocked_Nil normalize_text_Nil by auto
  with assms show ?thesis
    by (simp add: validate_input_valid validate_input_errors text_errors_def image_errors_def
        messages_distinct messages_distinct[symmetric])
qed

theorem blocked_text_rejected_once_witness:
  "check_blocked_patterns (normalize_text [0xD574, 0xD0B9]) = Some blocked_message
   \<and> \<not> valid (validate_input \<lparr>text = Some [0xD574, 0xD0B9], image_base64 = None\<rparr>)
   \<and> count_list (errors (validate_input
         \<lparr>text = Some [0xD574, 0xD0B9], image_base64 = None\<rparr>)) blocked_message = 1"
  using blocked_text_rejected_once
      [of "\<lparr>text = Some [0xD574, 0xD0B9], image_base64 = None\<rparr>" "[0xD574, 0xD0B9]"]
    hacking_blocked
  by (simp add: normalize_text_hacking check_blocked_patterns_def first_blocked_eq)

text \<open>
  Claim C7. For every request in which neither a text nor an image is present (absent or the
  empty string), the verdict is invalid, the errors contain the "must supply text or image"
  message, and no normalized text is returned.
\<close>

theorem missing_input_rejected:
  assumes "\<not> truthy_str (text request)" and "\<not> truthy_str (image_base64 request)"
  shows "\<not> valid (validate_input request)
       \<and> must_supply_message \<in> set (errors (validate_input request))
       \<and> normalized_text (validate_input request) = None"
  using assms
  by (simp add: validate_input_valid validate_input_errors validate_input_normalized)

theorem missing_input_rejected_witness:
  "\<not> truthy_str (text \<lparr>text = None, image_base64 = None\<rparr>)
   \<and> \<not> truthy_str (image_base64 \<lparr>text = None, image_base64 = None\<rparr>)
   \<and> \<not> valid (validate_input \<lparr>text = None, image_base64 = None\<rparr>)
   \<and> must_supply_message \<in> set (errors (validate_input \<lparr>text = None, image_base64 = None\<rparr>))
   \<and> normalized_text (validate_input \<lparr>text = None, image_base64 = None\<rparr>) = None"
  using missing_input_rejected[of "\<lparr>text = None, image_base64 = None\<rparr>"] by simp

text \<open>
  Claim C9. An empty-string text is treated as absent: with no image the text checks do
  not run (the errors are exactly the "must supply" message, so there is no "too short"
  error, and no normalized text is returned) and the verdict is invalid; with any image
  field the verdict is the one for an absent text. Likewise an empty-string image gives
  the verdict of an absent image.
\<close>

theorem empty_string_is_absent:
  "validate_input \<lparr>text = Some [], image_base64 = None\<rparr>
     = \<lparr>valid = False, errors = [must_supply_message], normalized_text = None\<rparr>
   \<and> validate_input \<lparr>text = Some [], image_base64 = i\<rparr>
     = validate_input \<lparr>text = None, image_base64 = i\<rparr>
   \<and> validate_input \<lparr>text = t, image_base64 = Some []\<rparr>
     = validate_input \<lparr>text = t, image_base64 = None\<rparr>"
  by (simp add: validate_input_def Let_def)

theorem empty_string_is_absent_witness:
  "validate_input \<lparr>text = Some [], image_base64 = None\<rparr>
     = \<lparr>valid = False, errors = [must_supply_message], normalized_text = None\<rparr>
   \<and> validate_input \<lparr>text = Some [], image_base64 = Some [0x41, 0x41, 0x41, 0x41]\<rparr>
     = validate_input \<lparr>text = None, image_base64 = Some [0x41, 0x41, 0x41, 0x41]\<rparr>
   \<and> validate_input \<lparr>text = Some [0x61], image_base64 = Some []\<rparr>
     = validate_input \<lparr>text = Some [0x61], image_base64 = None\<rparr>"
  by (rule empty_string_is_absent)

section \<open>The image size estimate\<close>

declare bit_length.simps [simp del]

lemma bit_length_0: "bit_length 0 = 0"
  by (simp add: bit_length.simps[of 0])

lemma bit_length_pos: "n \<noteq> 0 \<Longrightarrow> bit_length n = Suc (bit_length (n div 2))"
  by (simp add: bit_length.simps[of n])

lemma bit_length_le: "bit_length a \<le> k \<longleftrightarrow> a < 2 ^ k"
proof (induction a arbitrary: k rule: bit_length.induct)
  case (1 n)
  show ?case
  proof (cases "n = 0")
    case True
    then show ?thesis by (simp add: bit_length_0)
  next
    case False
    show ?thesis
    proof (cases k)
      case 0
      with False show ?thesis by (simp add: bit_length_pos)
    next
      case (Suc j)
      have "bit_length n \<le> Suc j \<longleftrightarrow> bit_length (n div 2) \<le> j"
        using False by (simp add: bit_length_pos)
      also have "\<dots> \<longleftrightarrow> n div 2 < 2 ^ j"
        using "1.IH"[OF False] .
      also have "\<dots> \<longleftrightarrow> n < 2 ^ Suc j"
        by auto
      finally show ?thesis using Suc by simp
    qed
  qed
qed

lemma round_binary64_small: "a < 2 ^ 53 \<Longrightarrow> round_binary64 a = a"
  using bit_length_le[of a 53] by (simp add: round_binary64_def)

lemma round_binary64_ge:
  assumes "\<not> bit_length a \<le> 53"
  shows "(a div 2 ^ (bit_length a - 53)) * 2 ^ (bit_length a - 53) \<le> round_binary64 a"
  using assms unfolding round_binary64_def Let_def
  by (simp del: power_numeral add: mult_le_mono1)

lemma round_binary64_large:
  assumes "2 ^ 53 \<le> a"
  shows "2 ^ 53 \<le> round_binary64 a"
proof -
  define b where "b = bit_length a"
  have nb: "\<not> b \<le> 53"
    using assms bit_length_le[of a 53] unfolding b_def by linarith
  define sh where "sh = b - 53"
  have sh: "b - 1 = 52 + sh" "Suc 0 \<le> sh"
    using nb by (simp_all add: sh_def)
  have "\<not> b \<le> b - 1" using nb by simp
  then have low: "(2::nat) ^ (52 + sh) \<le> a"
    using bit_length_le[of a "b - 1"] unfolding b_def[symmetric] sh(1) by linarith
  define q where "q = a div 2 ^ sh"
  have "(2::nat) ^ (52 + sh) div 2 ^ sh \<le> q"
    unfolding q_def using low by (rule div_le_mono)
  moreover have "(2::nat) ^ (52 + sh) div 2 ^ sh = 2 ^ 52"
    unfolding power_add by simp
  ultimately have q52: "2 ^ 52 \<le> q" by simp
  have "(2::nat) ^ Suc 0 \<le> 2 ^ sh"
    using sh(2) by (intro power_increasing) simp_all
  then have two: "(2::nat) \<le> 2 ^ sh" by simp
  have "(2::nat) ^ 52 * 2 \<le> q * 2 ^ sh"
    using q52 two by (rule mult_le_mono)
  moreover have "q * 2 ^ sh \<le> round_binary64 a"
    using round_binary64_ge[of a] nb
    unfolding b_def[symmetric] sh_def[symmetric] q_def[symmetric] by simp
  moreover have "(2::nat) ^ 52 * 2 = 2 ^ 53" by simp
  ultimately show ?thesis by linarith
qed

lemma int_of_quarter_small: "a < 2 ^ 53 \<Longrightarrow> int_of_quarter a = a div 4"
  by (simp only: int_of_quarter_def round_binary64_small)

lemma int_of_quarter_threshold:
  "max_size_bytes < int_of_quarter a \<longleftrightarrow> max_size_bytes < a div 4"
proof (cases "a < 2 ^ 53")
  case True
  then show ?thesis by (simp only: int_of_quarter_small)
next
  case False
  then have big: "2 ^ 53 \<le> a" by simp
  have "(2::nat) ^ 53 div 4 \<le> round_binary64 a div 4"
    using round_binary64_large[OF big] by (rule div_le_mono)
  moreover have "(2::nat) ^ 53 div 4 \<le> a div 4"
    using big by (rule div_le_mono)
  moreover have "max_size_bytes < 2 ^ 53 div 4"
    by (simp add: max_size_bytes_def)
  ultimately show ?thesis
    unfolding int_of_quarter_def by linarith
qed

lemma image_errors_iff:
  "image_too_large_message \<in> set (image_errors b)
     \<longleftrightarrow> 10 * 1024 * 1024 < (length b * 3) div 4"
proof -
  have "max_size_bytes < estimate_base64_size b \<longleftrightarrow> max_size_bytes < (length b * 3) div 4"
    unfolding estimate_base64_size_def by (rule int_of_quarter_threshold)
  then show ?thesis
    by (simp add: image_errors_def max_size_bytes_def)
qed

lemma image_message_not_text_error: "image_too_large_message \<notin> set (text_errors n)"
  by (simp add: text_errors_def messages_distinct messages_distinct[symmetric])

lemma image_errors_estimate:
  "image_too_large_message \<in> set (image_errors b)
     \<longleftrightarrow> 10 * 1024 * 1024 < estimate_base64_size b"
  by (simp add: image_errors_def max_size_bytes_def)

lemma estimate_base64_size_Nil: "estimate_base64_size [] = 0"
  by (simp add: estimate_base64_size_def int_of_quarter_small)

lemma image_error_in_errors:
  assumes "image_base64 request = Some b"
  shows "image_too_large_message \<in> set (errors (validate_input request))
           \<longleftrightarrow> 10 * 1024 * 1024 < estimate_base64_size b"
proof (cases "b = []")
  case True
  with assms show ?thesis
    by (simp add: validate_input_errors image_message_not_text_error estimate_base64_size_Nil
        messages_distinct messages_distinct[symmetric])
next
  case False
  with assms show ?thesis
    by (simp add: validate_input_errors image_message_not_text_error image_errors_estimate)
qed

text \<open>
  The source computes the estimate as \<open>int((len * 3) / 4)\<close> with a true (floating-point)
  division. The quotient is exact as long as \<open>len * 3\<close> has at most 53 bits, that is for
  every string shorter than 2 PiB, which is every string a process can hold. Beyond that
  the quotient is rounded before it is truncated: a string of 3002399751580333 characters
  would give one more than \<open>floor(len * 3 / 4)\<close>.
\<close>

lemma estimate_beyond_binary64:
  "estimate_base64_size (replicate 3002399751580333 0x41) = 2251799813685250
   \<and> (length (replicate 3002399751580333 (0x41::nat)) * 3) div 4 = 2251799813685249"
  by (simp add: estimate_base64_size_def int_of_quarter_def round_binary64_def Let_def
      bit_length.simps)

text \<open>
  Claim C5. For every request supplying an image string of length \<open>L\<close> that a process can
  hold (\<open>3 * L < 2 ^ 53\<close>), the estimated size is \<open>floor(L * 3 / 4)\<close>. For every request
  supplying an image string, of any length, the oversized-image error is among the errors
  iff that estimate is strictly greater than 10 MiB, which is the case iff
  \<open>floor(L * 3 / 4)\<close> is; the verdict is then invalid; and an estimate of exactly 10 MiB
  does not trigger the error.
\<close>

theorem image_size_estimate_and_limit:
  "(length b * 3 < 2 ^ 53 \<longrightarrow> estimate_base64_size b = (length b * 3) div 4)
   \<and> (image_base64 request = Some b \<longrightarrow>
        (image_too_large_message \<in> set (errors (validate_input request))
           \<longleftrightarrow> 10 * 1024 * 1024 < estimate_base64_size b)
        \<and> (image_too_large_message \<in> set (errors (validate_input request))
           \<longleftrightarrow> 10 * 1024 * 1024 < (length b * 3) div 4)
        \<and> (10 * 1024 * 1024 < estimate_base64_size b \<longrightarrow> \<not> valid (validate_input request))
        \<and> (estimate_base64_size b = 10 * 1024 * 1024
             \<longrightarrow> image_too_large_message \<notin> set (errors (validate_input request))))"
proof -
  have 1: "length b * 3 < 2 ^ 53 \<longrightarrow> estimate_base64_size b = (length b * 3) div 4"
    unfolding estimate_base64_size_def using int_of_quarter_small by blast
  have 2: "image_too_large_message \<in> set (errors (validate_input request))
           \<longleftrightarrow> 10 * 1024 * 1024 < estimate_base64_size b" if "image_base64 request = Some b"
    using that by (rule image_error_in_errors)
  have 3: "10 * 1024 * 1024 < estimate_base64_size b
           \<longleftrightarrow> 10 * 1024 * 1024 < (length b * 3) div 4"
    using int_of_quarter_threshold[of "length b * 3"]
    by (simp add: estimate_base64_size_def max_size_bytes_def)
  have 4: "\<not> valid (validate_input request)"
    if "image_base64 request = Some b" "10 * 1024 * 1024 < estimate_base64_size b"
  proof -
    have "image_too_large_message \<in> set (errors (validate_input request))"
      using 2 that by blast
    then have "errors (validate_input request) \<noteq> []"
      by auto
    then show ?thesis
      by (simp add: validate_input_valid)
  qed
  have 5: "image_too_large_message \<notin> set (errors (validate_input request))"
    if "image_base64 request = Some b" "estimate_base64_size b = 10 * 1024 * 1024"
    using 2[OF that(1)] that(2) by simp
  from 1 2 3 4 5 show ?thesis by blast
qed

theorem image_size_estimate_and_limit_witness:
  "estimate_base64_size (replicate 13981014 0x41) = 10 * 1024 * 1024
   \<and> image_too_large_message \<notin> set (errors (validate_input
         \<lparr>text = None, image_base64 = Some (replicate 13981014 0x41)\<rparr>))
   \<and> estimate_base64_size (replicate 13981015 0x41) = 10 * 1024 * 1024 + 1
   \<and> image_too_large_message \<in> set (errors (validate_input
         \<lparr>text = None, image_base64 = Some (replicate 13981015 0x41)\<rparr>))
   \<and> \<not> valid (validate_input
         \<lparr>text = None, image_base64 = Some (replicate 13981015 0x41)\<rparr>)"
  using image_size_estimate_and_limit[of "replicate 13981014 0x41"
      "\<lparr>text = None, image_base64 = Some (replicate 13981014 0x41)\<rparr>"]
    image_size_estimate_and_limit[of "replicate 13981015 0x41"
      "\<lparr>text = None, image_base64 = Some (replicate 13981015 0x41)\<rparr>"]
  by simp

section \<open>The missing-unit warning\<close>

lemma unit_message_not_step: "unit_missing_message \<noteq> step_prefix @ k @ step_suffix"
  by (simp add: unit_missing_message_def step_prefix_def)

lemma unit_message_steps_check:
  "unit_missing_message \<in> set (steps_check i ss ws) \<longleftrightarrow> unit_missing_message \<in> set ws"
  by (induction ss arbitrary: i ws) (simp_all add: unit_message_not_step)

lemma unit_message_required_fields:
  "unit_missing_message \<in> set (required_fields_check request required_fields [])
     \<longleftrightarrow> False"
  by (simp add: required_fields_def unit_missing_message_def)

lemma unit_message_answer_check:
  "unit_missing_message \<in> set (answer_check a ws) \<longleftrightarrow>
     unit_missing_message \<in> set ws
     \<or> ((\<exists>c\<in>set a. is_digit c) \<and> (\<forall>u\<in>set si_units. \<not> sublist u a))"
  by (auto simp add: answer_check_def Let_def list_ex_iff)

lemma unit_message_not_confidence: "unit_missing_message \<noteq> low_confidence_message"
  by (simp add: unit_missing_message_def low_confidence_message_def)

text \<open>
  Claim C8. For every output-validation request with a non-empty answer, the missing-unit
  warning is among the warnings if and only if the answer contains at least one decimal
  digit (a character of the class \<open>\d\<close>) and none of the recognized units of \<open>si_units\<close>
  occurs as a substring of the answer.
\<close>

theorem unit_warning_iff:
  assumes "answer request = Some a" and "a \<noteq> []"
  shows "unit_missing_message \<in> set (warnings (validate_output request))
     \<longleftrightarrow> (\<exists>c\<in>set a. is_digit c) \<and> (\<forall>u\<in>set si_units. \<not> sublist u a)"
  using assms
  by (simp add: validate_output_def Let_def unit_message_steps_check
      unit_message_answer_check unit_message_required_fields unit_message_not_confidence)

theorem unit_warning_iff_witness:
  "unit_missing_message \<in> set (warnings (validate_output
       \<lparr>answer = Some [0x32, 0x35, 0x30], steps = None, formulas = None,
        confidence = Some (Finite (1 / 2)), related_kec = None\<rparr>))
   \<and> unit_missing_message \<notin> set (warnings (validate_output
       \<lparr>answer = Some [0x32, 0x35, 0x30, 0x56], steps = None, formulas = None,
        confidence = None, related_kec = None\<rparr>))"
  using unit_warning_iff[of "\<lparr>answer = Some [0x32, 0x35, 0x30], steps = None, formulas = None,
        confidence = Some (Finite (1 / 2)), related_kec = None\<rparr>" "[0x32, 0x35, 0x30]"]
    unit_warning_iff[of "\<lparr>answer = Some [0x32, 0x35, 0x30, 0x56], steps = None,
        formulas = None, confidence = None, related_kec = None\<rparr>" "[0x32, 0x35, 0x30, 0x56]"]
  by (simp add: si_units_def is_digit_def decimal_zeros_def sublist_Cons_right)

section \<open>Substitution: general facts\<close>

lemma proper_Nil: "proper m \<Longrightarrow> m [] = None"
  unfolding proper_def by (cases "m []") force+

lemma re_sub_Nil: "proper m \<Longrightarrow> re_sub m [] = []"
  by (simp add: proper_Nil)

lemma re_sub_miss: "m (c # cs) = None \<Longrightarrow> re_sub m (c # cs) = c # re_sub m cs"
  by simp

lemma re_sub_hit:
  "proper m \<Longrightarrow> m (c # cs) = Some (out, n) \<Longrightarrow> re_sub m (c # cs) = out @ re_sub m (drop (n - 1) cs)"
  by (auto simp: proper_def)

lemma re_sub_fixed: "\<not> re_search m s \<Longrightarrow> re_sub m s = s"
  by (induction s) (auto split: option.splits)

lemma re_search_suffix: "re_search m s \<longleftrightarrow> (\<exists>t. suffix t s \<and> m t \<noteq> None)"
proof (induction s)
  case Nil
  then show ?case by simp
next
  case (Cons c cs)
  show ?case
    by (auto simp add: Cons.IH suffix_Cons)
qed

lemma prefix_re_sub:
  "proper m \<Longrightarrow> (\<forall>t out n. m t = Some (out, n) \<longrightarrow> hd out \<notin> set w)
     \<Longrightarrow> prefix w (re_sub m s) \<Longrightarrow> prefix w s"
proof (induction s arbitrary: w)
  case Nil
  then show ?case by (simp add: proper_Nil)
next
  case (Cons c cs)
  show ?case
  proof (cases "m (c # cs)")
    case None
    show ?thesis
    proof (cases w)
      case Nil
      then show ?thesis by simp
    next
      case (Cons d w')
      with None Cons.prems(3) have d: "d = c" and p: "prefix w' (re_sub m cs)"
        by simp_all
      have "\<forall>t out n. m t = Some (out, n) \<longrightarrow> hd out \<notin> set w'"
        using Cons.prems(2) Cons by auto
      from Cons.IH[OF Cons.prems(1) this p] d Cons show ?thesis by simp
    qed
  next
    case (Some a)
    obtain out n where a: "a = (out, n)" by (cases a)
    with Some Cons.prems(1) have out: "out \<noteq> []" and n: "0 < n"
      by (auto simp: proper_def)
    have hd_out: "hd out \<notin> set w" using Cons.prems(2) Some a by blast
    have "prefix w (out @ re_sub m (drop (n - 1) cs))"
      using Cons.prems(3) Some a n by simp
    then have "w = []"
      using out hd_out by (cases w; cases out) auto
    then show ?thesis by simp
  qed
qed

lemma clearD:
  assumes "clear w out"
  shows "out \<noteq> []" and "hd out \<notin> set (tl w)"
    and "\<And>u. suffix u out \<Longrightarrow> u \<noteq> [] \<Longrightarrow> \<not> prefix w u \<and> \<not> prefix u w"
  using assms by (auto simp: clear_def list_all_iff in_set_suffixes)

lemma re_sub_avoids:
  assumes m: "proper m" and w: "w \<noteq> []"
    and cl: "\<forall>t out n. m t = Some (out, n) \<longrightarrow> clear w out"
    and src: "\<not> sublist w s \<or> (\<forall>t. prefix w t \<longrightarrow> m t \<noteq> None)"
  shows "\<not> sublist w (re_sub m s)"
  using src
proof (induction s rule: length_induct)
  case (1 s)
  show ?case
  proof (cases s)
    case Nil
    with m w show ?thesis by (simp add: proper_Nil)
  next
    case (Cons c cs)
    show ?thesis
    proof (cases "m (c # cs)")
      case None
      have "\<not> sublist w cs \<or> (\<forall>t. prefix w t \<longrightarrow> m t \<noteq> None)"
        using "1.prems" Cons by (auto simp: sublist_Cons_right)
      then have R: "\<not> sublist w (re_sub m cs)"
        using "1.IH" Cons by simp
      have "\<not> prefix w (c # re_sub m cs)"
      proof
        assume p: "prefix w (c # re_sub m cs)"
        then obtain w' where w': "w = c # w'" and p': "prefix w' (re_sub m cs)"
          using w by (cases w) auto
        have "\<forall>t out n. m t = Some (out, n) \<longrightarrow> hd out \<notin> set w'"
          using cl w' clearD(2) by fastforce
        from prefix_re_sub[OF m this p'] have "prefix w (c # cs)"
          using w' by simp
        with "1.prems" Cons None show False
          by auto
      qed
      with R None Cons show ?thesis
        by (simp add: sublist_Cons_right)
    next
      case (Some a)
      obtain out n where a: "a = (out, n)" by (cases a)
      have hit: "m (c # cs) = Some (out, n)" using Some a by simp
      have c: "clear w out" using cl hit by blast
      have eq: "re_sub m s = out @ re_sub m (drop (n - 1) cs)"
        using re_sub_hit[OF m hit] Cons by simp
      have "sublist (drop (n - 1) cs) s"
        using Cons by (metis sublist_Cons_right sublist_drop sublist_order.order.trans sublist_order.order_refl)
      then have "\<not> sublist w (drop (n - 1) cs) \<or> (\<forall>t. prefix w t \<longrightarrow> m t \<noteq> None)"
        using "1.prems" sublist_order.order.trans by blast
      moreover have "length (drop (n - 1) cs) < length s"
        using Cons by simp
      ultimately have R: "\<not> sublist w (re_sub m (drop (n - 1) cs))"
        using "1.IH" by blast
      show ?thesis
      proof
        assume "sublist w (re_sub m s)"
        then consider "sublist w out" | "sublist w (re_sub m (drop (n - 1) cs))"
          | xs1 xs2 where "w = xs1 @ xs2" "suffix xs1 out" "prefix xs2 (re_sub m (drop (n - 1) cs))"
          unfolding eq sublist_append by blast
        then show False
        proof cases
          case 1
          then obtain u where "suffix u out" "prefix w u"
            unfolding sublist_altdef' by blast
          moreover from this w have "u \<noteq> []" by auto
          ultimately show False using clearD(3)[OF c] by blast
        next
          case 2
          with R show False by blast
        next
          case 3
          show False
          proof (cases "xs1 = []")
            case True
            with 3 R show False by auto
          next
            case False
            moreover have "prefix xs1 w" using 3(1) by simp
            ultimately show False using clearD(3)[OF c 3(2)] by blast
          qed
        qed
      qed
    qed
  qed
qed

lemma literal_Some: "literal p r t = Some (out, n) \<longleftrightarrow> prefix p t \<and> out = r \<and> n = length p"
  by (auto simp: literal_def)

lemma literal_None: "literal p r t = None \<longleftrightarrow> \<not> prefix p t"
  by (simp add: literal_def)

lemma proper_literal: "p \<noteq> [] \<Longrightarrow> r \<noteq> [] \<Longrightarrow> proper (literal p r)"
  by (auto simp: proper_def literal_Some prefix_length_le)

lemma re_search_literal: "p \<noteq> [] \<Longrightarrow> re_search (literal p r) s \<longleftrightarrow> sublist p s"
  by (induction s) (auto simp: literal_None sublist_Cons_right)



lemma literal_avoids:
  assumes "p \<noteq> []" "r \<noteq> []" "w \<noteq> []" "clear w r" "\<not> sublist w s \<or> w = p"
  shows "\<not> sublist w (re_sub (literal p r) s)"
proof (rule re_sub_avoids)
  show "proper (literal p r)" using assms by (simp add: proper_literal)
  show "w \<noteq> []" by fact
  show "\<forall>t out n. literal p r t = Some (out, n) \<longrightarrow> clear w out"
    using assms(4) by (simp add: literal_Some)
  show "\<not> sublist w s \<or> (\<forall>t. prefix w t \<longrightarrow> literal p r t \<noteq> None)"
    using assms(5) by (auto simp: literal_None)
qed

lemma apply_mappings_Nil: "apply_mappings [] s = s"
  by (simp add: apply_mappings_def)

lemma apply_mappings_Cons:
  "apply_mappings ((p, r) # ms) s = apply_mappings ms (re_sub (literal p r) s)"
  by (simp add: apply_mappings_def)

lemma apply_mappings_append:
  "apply_mappings (ms @ ms') s = apply_mappings ms' (apply_mappings ms s)"
  by (simp add: apply_mappings_def)

lemma apply_mappings_keeps_clear:
  "mappings_ok ms \<Longrightarrow> clear_of w ms \<Longrightarrow> w \<noteq> [] \<Longrightarrow> \<not> sublist w s
     \<Longrightarrow> \<not> sublist w (apply_mappings ms s)"
proof (induction ms arbitrary: s)
  case Nil
  then show ?case by (simp add: apply_mappings_Nil)
next
  case (Cons a ms)
  obtain p r where a: "a = (p, r)" by (cases a)
  have "\<not> sublist w (re_sub (literal p r) s)"
    using Cons.prems a by (intro literal_avoids) (simp_all add: mappings_ok_def clear_of_def)
  then show ?case
    using Cons a by (simp add: apply_mappings_Cons mappings_ok_def clear_of_def)
qed

lemma apply_mappings_removes:
  "mappings_ok ms \<Longrightarrow> clear_of w ms \<Longrightarrow> w \<in> fst ` set ms
     \<Longrightarrow> \<not> sublist w (apply_mappings ms s)"
proof (induction ms arbitrary: s)
  case Nil
  then show ?case by simp
next
  case (Cons a ms)
  obtain p r where a: "a = (p, r)" by (cases a)
  have ok: "mappings_ok ms" "clear_of w ms" "p \<noteq> []" "r \<noteq> []" "clear w r"
    using Cons.prems a by (simp_all add: mappings_ok_def clear_of_def)
  show ?case
  proof (cases "w = p")
    case True
    then have "\<not> sublist w (re_sub (literal p r) s)"
      using ok by (intro literal_avoids) simp_all
    then show ?thesis
      using apply_mappings_keeps_clear[OF ok(1,2)] True ok(3) a by (simp add: apply_mappings_Cons)
  next
    case False
    then have "w \<in> fst ` set ms" using Cons.prems(3) a by auto
    from Cons.IH[OF ok(1,2) this] a show ?thesis by (simp add: apply_mappings_Cons)
  qed
qed

lemma apply_mappings_fixed:
  "mappings_ok ms \<Longrightarrow> \<forall>p\<in>fst ` set ms. \<not> sublist p s \<Longrightarrow> apply_mappings ms s = s"
proof (induction ms)
  case Nil
  then show ?case by (simp add: apply_mappings_Nil)
next
  case (Cons a ms)
  obtain p r where a: "a = (p, r)" by (cases a)
  have "re_sub (literal p r) s = s"
    using Cons.prems a by (intro re_sub_fixed) (simp add: re_search_literal mappings_ok_def)
  then show ?case using Cons a by (simp add: apply_mappings_Cons mappings_ok_def)
qed

lemma tables_ok: "mappings_ok UNIT_MAPPINGS" "mappings_ok TYPO_MAPPINGS"
  by (simp_all add: mappings_ok_def UNIT_MAPPINGS_def TYPO_MAPPINGS_def)

lemma tables_clear:
  "\<forall>w\<in>fst ` set (UNIT_MAPPINGS @ TYPO_MAPPINGS). clear_of w (UNIT_MAPPINGS @ TYPO_MAPPINGS)"
  by (simp add: clear_of_def clear_def UNIT_MAPPINGS_def TYPO_MAPPINGS_def)

lemma space_not_digit: "is_space c \<Longrightarrow> \<not> is_digit c"
proof -
  have "\<forall>c\<in>set whitespace_table. \<not> is_digit c"
    by (simp add: whitespace_table_def is_digit_def decimal_zeros_def)
  then show "is_space c \<Longrightarrow> \<not> is_digit c"
    by (simp add: is_space_def)
qed

lemma digit_not_space: "is_digit c \<Longrightarrow> \<not> is_space c"
  using space_not_digit by blast

lemma equals_not_space: "\<not> is_space 0x3D"
  by (simp add: is_space_def whitespace_table_def)

lemma equals_not_digit: "\<not> is_digit 0x3D"
  by (simp add: is_digit_def decimal_zeros_def)

lemma digit_not_equals: "is_digit d \<Longrightarrow> d \<noteq> 0x3D"
  using equals_not_digit by blast

lemma space_is_space: "is_space 0x20"
  by (simp add: is_space_def whitespace_table_def)

lemma abbrev_tail_intro:
  assumes "\<forall>c\<in>set sp1. is_space c" "\<forall>c\<in>set sp2. is_space c" "e = [] \<or> e = [0x3D]" "is_digit d"
  shows "abbrev_tail (sp1 @ e @ sp2 @ d # rest) = Some (d, rest)"
proof -
  have d: "\<not> is_space d" "d \<noteq> 0x3D"
    using assms(4) digit_not_space digit_not_equals by auto
  show ?thesis
  proof (cases "e = []")
    case True
    have "dropWhile is_space (sp1 @ e @ sp2 @ d # rest) = d # rest"
      using assms(1,2) d True by (simp add: dropWhile_append2)
    then show ?thesis
      using d assms(4) by (simp add: abbrev_tail_def skip_equals_def)
  next
    case False
    then have e: "e = [0x3D]" using assms(3) by simp
    have "dropWhile is_space (sp1 @ e @ sp2 @ d # rest) = 0x3D # sp2 @ d # rest"
      using assms(1) e equals_not_space by (simp add: dropWhile_append2)
    moreover have "dropWhile is_space (sp2 @ d # rest) = d # rest"
      using assms(2) d by (simp add: dropWhile_append2)
    ultimately show ?thesis
      using assms(4) by (simp add: abbrev_tail_def skip_equals_def)
  qed
qed

lemma abbrev_tail_elim:
  assumes "abbrev_tail t = Some (d, rest)"
  obtains sp1 e sp2 where "t = sp1 @ e @ sp2 @ d # rest"
    "\<forall>c\<in>set sp1. is_space c" "\<forall>c\<in>set sp2. is_space c" "e = [] \<or> e = [0x3D]" "is_digit d"
proof -
  define sp1 where "sp1 = takeWhile is_space t"
  define t2 where "t2 = dropWhile is_space t"
  define e where "e = (case t2 of [] \<Rightarrow> [] | c # cs \<Rightarrow> if c = 0x3D then [c] else [])"
  define t3 where "t3 = skip_equals t2"
  define sp2 where "sp2 = takeWhile is_space t3"
  have 1: "t = sp1 @ t2" by (simp add: sp1_def t2_def)
  have 2: "t2 = e @ t3"
    by (cases t2) (auto simp: e_def t3_def skip_equals_def)
  have 3: "t3 = sp2 @ dropWhile is_space t3" by (simp add: sp2_def)
  have 4: "dropWhile is_space t3 = d # rest \<and> is_digit d"
    using assms unfolding abbrev_tail_def t3_def t2_def
    by (auto split: list.splits if_splits)
  have "t = sp1 @ e @ sp2 @ d # rest"
    using 1 2 3 4 by simp
  moreover have "\<forall>c\<in>set sp1. is_space c" "\<forall>c\<in>set sp2. is_space c"
    unfolding sp1_def sp2_def by (auto dest: set_takeWhileD)
  moreover have "e = [] \<or> e = [0x3D]"
    by (cases t2) (auto simp: e_def)
  ultimately show thesis using that 4 by blast
qed

lemma spaces_Some:
  "spaces t = Some (out, n) \<longleftrightarrow> out = [0x20] \<and> n = length (takeWhile is_space t) \<and> 0 < n"
  by (auto simp: spaces_def Let_def)

lemma spaces_None: "spaces t = None \<longleftrightarrow> (t = [] \<or> \<not> is_space (hd t))"
  by (cases t) (auto simp: spaces_def Let_def)

lemma proper_spaces: "proper spaces"
  by (auto simp: proper_def spaces_Some length_takeWhile_le)

section \<open>The abbreviation rules\<close>

lemma match_ci_Some:
  "match_ci L t = Some t1 \<longleftrightarrow>
     (\<exists>pre. t = pre @ t1 \<and> list_all2 (\<lambda>c l. c \<in> set (case_variants l)) pre L)"
proof (induction L t rule: match_ci.induct)
  case (1 t)
  then show ?case by auto
next
  case (2 l ls)
  then show ?case by (auto simp: list_all2_Cons2)
next
  case (3 l ls c cs)
  show ?case
  proof (cases "c \<in> set (case_variants l)")
    case True
    then show ?thesis
      using 3 by (auto simp: list_all2_Cons2 Cons_eq_append_conv)
  next
    case False
    then show ?thesis
      by (auto simp: list_all2_Cons2 Cons_eq_append_conv)
  qed
qed

lemma abbrev_Some:
  "abbrev L out t = Some (o', n) \<longleftrightarrow>
     (\<exists>pre sp1 e sp2 d rest.
        t = pre @ sp1 @ e @ sp2 @ d # rest
        \<and> list_all2 (\<lambda>c l. c \<in> set (case_variants l)) pre L
        \<and> (\<forall>c\<in>set sp1. is_space c) \<and> (\<forall>c\<in>set sp2. is_space c) \<and> (e = [] \<or> e = [0x3D])
        \<and> is_digit d \<and> o' = out @ [d] \<and> n = length (pre @ sp1 @ e @ sp2) + 1)"
  (is "?l \<longleftrightarrow> ?r")
proof
  assume ?l
  then obtain t1 d rest where m: "match_ci L t = Some t1" and a: "abbrev_tail t1 = Some (d, rest)"
    and o: "o' = out @ [d]" and n: "n = length t - length rest"
    by (auto simp: abbrev_def split: option.splits)
  from m obtain pre where pre: "t = pre @ t1" "list_all2 (\<lambda>c l. c \<in> set (case_variants l)) pre L"
    unfolding match_ci_Some by blast
  from a obtain sp1 e sp2 where t1: "t1 = sp1 @ e @ sp2 @ d # rest"
    "\<forall>c\<in>set sp1. is_space c" "\<forall>c\<in>set sp2. is_space c" "e = [] \<or> e = [0x3D]" "is_digit d"
    by (rule abbrev_tail_elim)
  have "n = length (pre @ sp1 @ e @ sp2) + 1"
    using n pre(1) t1(1) by simp
  with pre t1 o show ?r by blast
next
  assume ?r
  then obtain pre sp1 e sp2 d rest where t: "t = pre @ sp1 @ e @ sp2 @ d # rest"
    and pre: "list_all2 (\<lambda>c l. c \<in> set (case_variants l)) pre L"
    and sp: "\<forall>c\<in>set sp1. is_space c" "\<forall>c\<in>set sp2. is_space c" "e = [] \<or> e = [0x3D]" "is_digit d"
    and o: "o' = out @ [d]" and n: "n = length (pre @ sp1 @ e @ sp2) + 1"
    by blast
  have "match_ci L t = Some (sp1 @ e @ sp2 @ d # rest)"
    unfolding match_ci_Some using t pre by blast
  moreover have "abbrev_tail (sp1 @ e @ sp2 @ d # rest) = Some (d, rest)"
    using sp by (rule abbrev_tail_intro)
  ultimately show ?l
    using o n t by (simp add: abbrev_def)
qed

lemma proper_abbrev: "proper (abbrev L out)"
  unfolding proper_def abbrev_Some by auto

lemma abbrev_extend:
  assumes "abbrev L out t = Some (o', n)"
  shows "abbrev L out (t @ x) = Some (o', n)"
proof -
  from assms obtain pre sp1 e sp2 d rest where
    "t = pre @ sp1 @ e @ sp2 @ d # rest
        \<and> list_all2 (\<lambda>c l. c \<in> set (case_variants l)) pre L
        \<and> (\<forall>c\<in>set sp1. is_space c) \<and> (\<forall>c\<in>set sp2. is_space c) \<and> (e = [] \<or> e = [0x3D])
        \<and> is_digit d \<and> o' = out @ [d] \<and> n = length (pre @ sp1 @ e @ sp2) + 1"
    unfolding abbrev_Some by blast
  then have "t @ x = pre @ sp1 @ e @ sp2 @ d # (rest @ x)
        \<and> list_all2 (\<lambda>c l. c \<in> set (case_variants l)) pre L
        \<and> (\<forall>c\<in>set sp1. is_space c) \<and> (\<forall>c\<in>set sp2. is_space c) \<and> (e = [] \<or> e = [0x3D])
        \<and> is_digit d \<and> o' = out @ [d] \<and> n = length (pre @ sp1 @ e @ sp2) + 1"
    by simp
  then show ?thesis unfolding abbrev_Some by blast
qed

lemma abbrev_take:
  assumes "abbrev L out t = Some (o', n)"
  shows "abbrev L out (take n t) = Some (o', n)"
proof -
  from assms obtain pre sp1 e sp2 d rest where
    *: "t = pre @ sp1 @ e @ sp2 @ d # rest
        \<and> list_all2 (\<lambda>c l. c \<in> set (case_variants l)) pre L
        \<and> (\<forall>c\<in>set sp1. is_space c) \<and> (\<forall>c\<in>set sp2. is_space c) \<and> (e = [] \<or> e = [0x3D])
        \<and> is_digit d \<and> o' = out @ [d] \<and> n = length (pre @ sp1 @ e @ sp2) + 1"
    unfolding abbrev_Some by blast
  then have "take n t = pre @ sp1 @ e @ sp2 @ d # []"
    by simp
  with * show ?thesis unfolding abbrev_Some by blast
qed

lemma abbrev_word_iff:
  "abbrev_word L w \<longleftrightarrow>
     (\<exists>pre mid. w = pre @ mid \<and> list_all2 (\<lambda>c l. c \<in> set (case_variants l)) pre L
        \<and> mid \<noteq> [] \<and> (\<forall>c\<in>set mid. gap_char c))"
  (is "?l \<longleftrightarrow> ?r")
proof
  assume ?l
  then obtain mid where "match_ci L w = Some mid" "mid \<noteq> []" "list_all gap_char mid"
    by (auto simp: abbrev_word_def split: option.splits)
  then show ?r
    unfolding match_ci_Some by (auto simp: list_all_iff)
next
  assume ?r
  then obtain pre mid where *: "w = pre @ mid"
    "list_all2 (\<lambda>c l. c \<in> set (case_variants l)) pre L" "mid \<noteq> []" "\<forall>c\<in>set mid. gap_char c"
    by blast
  then have "match_ci L w = Some mid"
    unfolding match_ci_Some by blast
  with * show ?l
    by (simp add: abbrev_word_def list_all_iff)
qed

lemma abbrev_matched_word:
  assumes "abbrev L out t = Some (o', n)"
  shows "abbrev_word L (take n t)"
proof -
  from assms obtain pre sp1 e sp2 d rest where
    *: "t = pre @ sp1 @ e @ sp2 @ d # rest"
       "list_all2 (\<lambda>c l. c \<in> set (case_variants l)) pre L"
       "\<forall>c\<in>set sp1. is_space c" "\<forall>c\<in>set sp2. is_space c" "e = [] \<or> e = [0x3D]"
       "is_digit d" "n = length (pre @ sp1 @ e @ sp2) + 1"
    unfolding abbrev_Some by blast
  then have "take n t = pre @ (sp1 @ e @ sp2 @ [d])"
    by simp
  moreover have "\<forall>c\<in>set (sp1 @ e @ sp2 @ [d]). gap_char c"
    using *(3-6) by (auto simp: gap_char_def)
  ultimately show ?thesis
    unfolding abbrev_word_iff using *(2) by blast
qed

lemma abbrev_output:
  "abbrev L out t = Some (o', n) \<Longrightarrow> \<exists>d. is_digit d \<and> o' = out @ [d]"
  unfolding abbrev_Some by blast

lemma clear_by_hd:
  assumes "w \<noteq> []" "out \<noteq> []" "hd out \<notin> set (tl w)" "hd w \<notin> set out"
  shows "clear w out"
proof -
  have "\<not> prefix w u \<and> \<not> prefix u w" if "suffix u out" "u \<noteq> []" for u
  proof -
    have "hd u \<in> set out"
      using that by (metis hd_in_set set_mono_suffix subsetD)
    then have "hd u \<noteq> hd w" using assms(4) by auto
    then show ?thesis
      using that(2) assms(1) by (cases u; cases w) auto
  qed
  then show ?thesis
    using assms(2,3) by (auto simp: clear_def list_all_iff in_set_suffixes)
qed

lemma clear_snoc:
  assumes "clear p out" "p \<noteq> []" "hd p \<noteq> d"
  shows "clear p (out @ [d])"
proof -
  have out: "out \<noteq> []" "hd out \<notin> set (tl p)"
    using clearD(1,2)[OF assms(1)] by auto
  have "\<not> prefix p u \<and> \<not> prefix u p" if "suffix u (out @ [d])" "u \<noteq> []" for u
  proof -
    from that obtain u' where u: "u = u' @ [d]" "suffix u' out"
      by (auto simp: suffix_snoc)
    show ?thesis
    proof (cases "u' = []")
      case True
      then show ?thesis
        using u assms(2,3) by (cases p) auto
    next
      case False
      from clearD(3)[OF assms(1) u(2) False] show ?thesis
        using u(1) by (auto simp: prefix_snoc dest: append_prefixD)
    qed
  qed
  then have all: "u = [] \<or> (\<not> prefix p u \<and> \<not> prefix u p)" if "u \<in> set (suffixes (out @ [d]))" for u
    using that by (simp only: in_set_suffixes) metis
  have "list_all (\<lambda>u. u = [] \<or> (\<not> prefix p u \<and> \<not> prefix u p)) (suffixes (out @ [d]))"
    unfolding list_all_iff using all by (intro ballI)
  moreover have "out @ [d] \<noteq> []" "hd (out @ [d]) \<notin> set (tl p)"
    using out by simp_all
  ultimately show ?thesis
    by (simp only: clear_def simp_thms)
qed

lemma abbrev_word_nonempty: "abbrev_word L w \<Longrightarrow> w \<noteq> []"
  unfolding abbrev_word_iff by auto

lemma abbrev_local:
  assumes "abbrev L out t = Some (o', n)" and "prefix (take n t) t'"
  shows "abbrev L out t' \<noteq> None"
proof -
  from assms(2) obtain x where "t' = take n t @ x"
    by (auto simp: prefix_def)
  with abbrev_extend[OF abbrev_take[OF assms(1)], of x] show ?thesis by simp
qed

lemma re_search_sublist_word:
  assumes "abbrev L out t = Some (o', n)" and "sublist (take n t) s"
  shows "re_search (abbrev L out) s"
proof -
  from assms(2) obtain ps ss where "s = ps @ take n t @ ss"
    by (auto simp: sublist_def)
  then have "suffix (take n t @ ss) s" by (simp add: suffix_def)
  moreover have "abbrev L out (take n t @ ss) \<noteq> None"
    using abbrev_local[OF assms(1)] by simp
  ultimately show ?thesis
    unfolding re_search_suffix by blast
qed

lemma re_search_abbrev_word:
  assumes "re_search (abbrev L out) s"
  obtains t o' n where "abbrev L out t = Some (o', n)" "sublist (take n t) s"
proof -
  from assms obtain t where t: "suffix t s" "abbrev L out t \<noteq> None"
    unfolding re_search_suffix by blast
  then obtain o' n where a: "abbrev L out t = Some (o', n)" by auto
  have "sublist (take n t) t" by simp
  then have "sublist (take n t) s"
    using t(1) by (meson sublist_order.order.trans suffix_imp_sublist)
  with a that show thesis by blast
qed

lemma abbrev_free_preserved:
  assumes m: "proper m"
    and cl: "\<forall>t out n w. m t = Some (out, n) \<longrightarrow> abbrev_word L w \<longrightarrow> clear w out"
    and src: "\<not> re_search (abbrev L o') s \<or> m = abbrev L o'"
  shows "\<not> re_search (abbrev L o') (re_sub m s)"
proof
  assume "re_search (abbrev L o') (re_sub m s)"
  then obtain t o'' n where a: "abbrev L o' t = Some (o'', n)"
    and sub: "sublist (take n t) (re_sub m s)"
    by (rule re_search_abbrev_word)
  define w where "w = take n t"
  have word: "abbrev_word L w"
    unfolding w_def using a by (rule abbrev_matched_word)
  have "\<not> sublist w (re_sub m s)"
  proof (rule re_sub_avoids[OF m])
    show "w \<noteq> []" using word by (rule abbrev_word_nonempty)
    show "\<forall>t out n. m t = Some (out, n) \<longrightarrow> clear w out"
      using cl word by blast
    show "\<not> sublist w s \<or> (\<forall>t. prefix w t \<longrightarrow> m t \<noteq> None)"
    proof (cases "m = abbrev L o'")
      case True
      then show ?thesis
        using abbrev_local[OF a] unfolding w_def by blast
    next
      case False
      then have "\<not> re_search (abbrev L o') s" using src by blast
      then show ?thesis
        using re_search_sublist_word[OF a] unfolding w_def by blast
    qed
  qed
  with sub show False unfolding w_def by blast
qed

lemma re_search_sublist_closed:
  assumes "\<not> re_search (abbrev L out) s" and "sublist u s"
  shows "\<not> re_search (abbrev L out) u"
proof
  assume "re_search (abbrev L out) u"
  then obtain t o' n where a: "abbrev L out t = Some (o', n)" "sublist (take n t) u"
    by (rule re_search_abbrev_word)
  then have "sublist (take n t) s"
    using assms(2) by (meson sublist_order.order.trans)
  with re_search_sublist_word[OF a(1)] assms(1) show False by blast
qed

lemma letters_not_gap:
  "\<not> gap_char 0xC5ED" "\<not> gap_char 0x63" "\<not> gap_char 0x3B8"
  "\<not> is_digit 0x70" "\<not> is_digit 0x50" "\<not> is_digit 0x63" "\<not> is_digit 0x43"
  by (simp_all add: gap_char_def is_space_def whitespace_table_def is_digit_def decimal_zeros_def)

lemma pf_word_shape:
  assumes "abbrev_word pf_letters w"
  obtains a b mid where "w = a # b # mid" "a = 0x70 \<or> a = 0x50" "b = 0x66 \<or> b = 0x46"
    "mid \<noteq> []" "\<forall>c\<in>set mid. gap_char c"
  using assms unfolding abbrev_word_iff pf_letters_def
  by (auto simp: list_all2_Cons2 case_variants_def)

lemma cos_word_shape:
  assumes "abbrev_word cos_letters w"
  obtains a b c g mid where "w = a # b # c # g # mid" "a = 0x63 \<or> a = 0x43"
    "b = 0x6F \<or> b = 0x4F" "c = 0x73 \<or> c = 0x53 \<or> c = 0x17F" "gap_char g"
    "\<forall>c\<in>set mid. gap_char c"
proof -
  from assms obtain pre mid where *: "w = pre @ mid"
    "list_all2 (\<lambda>c l. c \<in> set (case_variants l)) pre cos_letters" "mid \<noteq> []"
    "\<forall>c\<in>set mid. gap_char c"
    unfolding abbrev_word_iff by blast
  from *(3) obtain g mid' where mid: "mid = g # mid'" by (cases mid) auto
  from *(2) obtain a b c where pre: "pre = [a, b, c]" "a = 0x63 \<or> a = 0x43"
    "b = 0x6F \<or> b = 0x4F" "c = 0x73 \<or> c = 0x53 \<or> c = 0x17F"
    unfolding cos_letters_def by (auto simp: list_all2_Cons2 case_variants_def)
  show thesis
    using that[of a b c g mid'] * mid pre by simp
qed

lemma pf_word_clear_pf:
  assumes "abbrev_word pf_letters w" "is_digit d"
  shows "clear w (pf_replacement @ [d])"
proof -
  from assms(1) obtain a b mid where w: "w = a # b # mid" "a = 0x70 \<or> a = 0x50"
    "b = 0x66 \<or> b = 0x46" "mid \<noteq> []" "\<forall>c\<in>set mid. gap_char c"
    by (rule pf_word_shape)
  show ?thesis
  proof (rule clear_by_hd)
    show "w \<noteq> []" using w by simp
    show "pf_replacement @ [d] \<noteq> []" by simp
    show "hd (pf_replacement @ [d]) \<notin> set (tl w)"
      using w letters_not_gap(1) by (auto simp: pf_replacement_def)
    show "hd w \<notin> set (pf_replacement @ [d])"
      using w assms(2) letters_not_gap(4,5) by (auto simp: pf_replacement_def)
  qed
qed

lemma pf_word_clear_cos:
  assumes "abbrev_word pf_letters w" "is_digit d"
  shows "clear w (cos_replacement @ [d])"
proof -
  from assms(1) obtain a b mid where w: "w = a # b # mid" "a = 0x70 \<or> a = 0x50"
    "b = 0x66 \<or> b = 0x46" "mid \<noteq> []" "\<forall>c\<in>set mid. gap_char c"
    by (rule pf_word_shape)
  show ?thesis
  proof (rule clear_by_hd)
    show "w \<noteq> []" using w by simp
    show "cos_replacement @ [d] \<noteq> []" by simp
    show "hd (cos_replacement @ [d]) \<notin> set (tl w)"
      using w letters_not_gap(2) by (auto simp: cos_replacement_def)
    show "hd w \<notin> set (cos_replacement @ [d])"
      using w assms(2) letters_not_gap(4,5) by (auto simp: cos_replacement_def)
  qed
qed

lemma cos_word_clear_cos:
  assumes "abbrev_word cos_letters w" "is_digit d"
  shows "clear w (cos_replacement @ [d])"
proof -
  from assms(1) obtain a b c g mid where w: "w = a # b # c # g # mid" "a = 0x63 \<or> a = 0x43"
    "b = 0x6F \<or> b = 0x4F" "c = 0x73 \<or> c = 0x53 \<or> c = 0x17F" "gap_char g"
    "\<forall>c\<in>set mid. gap_char c"
    by (rule cos_word_shape)
  have g: "g \<noteq> 0x3B8" using w(5) letters_not_gap(3) by auto
  have d: "d \<noteq> 0x63" "d \<noteq> 0x43" using assms(2) letters_not_gap(6,7) by auto
  have "hd (cos_replacement @ [d]) \<notin> set (tl w)"
    using w letters_not_gap(2) by (auto simp: cos_replacement_def)
  moreover have "list_all (\<lambda>u. u = [] \<or> (\<not> prefix w u \<and> \<not> prefix u w))
     (suffixes (cos_replacement @ [d]))"
    using w(2) g d unfolding w(1) cos_replacement_def by auto
  ultimately show ?thesis
    by (simp add: clear_def)
qed


lemma patterns_clear_fixed:
  "\<forall>p\<in>set all_patterns. p \<noteq> [] \<and> \<not> is_digit (hd p) \<and> clear p pf_replacement
      \<and> clear p cos_replacement \<and> clear p [0x20]"
  by (simp add: all_patterns_def UNIT_MAPPINGS_def TYPO_MAPPINGS_def clear_def
      pf_replacement_def cos_replacement_def is_digit_def decimal_zeros_def)

lemma pattern_avoids_abbrev:
  assumes "p \<in> set all_patterns" "out = pf_replacement \<or> out = cos_replacement"
    "\<not> sublist p s"
  shows "\<not> sublist p (re_sub (abbrev L out) s)"
proof (rule re_sub_avoids)
  show "proper (abbrev L out)" by (rule proper_abbrev)
  show "p \<noteq> []" using patterns_clear_fixed assms(1) by blast
  show "\<forall>t o' n. abbrev L out t = Some (o', n) \<longrightarrow> clear p o'"
  proof (intro allI impI)
    fix t o' n
    assume "abbrev L out t = Some (o', n)"
    then obtain d where d: "is_digit d" "o' = out @ [d]"
      using abbrev_output by blast
    have "clear p out" "p \<noteq> []" "\<not> is_digit (hd p)"
      using patterns_clear_fixed assms(1,2) by blast+
    then show "clear p o'"
      unfolding d(2) using d(1) by (intro clear_snoc) auto
  qed
  show "\<not> sublist p s \<or> (\<forall>t. prefix p t \<longrightarrow> abbrev L out t \<noteq> None)"
    using assms(3) by blast
qed

lemma pattern_avoids_spaces:
  assumes "p \<in> set all_patterns" "\<not> sublist p s"
  shows "\<not> sublist p (re_sub spaces s)"
proof (rule re_sub_avoids)
  show "proper spaces" by (rule proper_spaces)
  show "p \<noteq> []" using patterns_clear_fixed assms(1) by blast
  show "\<forall>t out n. spaces t = Some (out, n) \<longrightarrow> clear p out"
    using patterns_clear_fixed assms(1) by (auto simp: spaces_Some)
  show "\<not> sublist p s \<or> (\<forall>t. prefix p t \<longrightarrow> spaces t \<noteq> None)"
    using assms(2) by blast
qed

section \<open>Whitespace: collapsing and stripping\<close>

declare re_sub.simps [simp del]

lemma spaces_Nil: "re_sub spaces [] = []"
  by (simp add: re_sub.simps spaces_def)

lemma spaces_other: "\<not> is_space c \<Longrightarrow> re_sub spaces (c # cs) = c # re_sub spaces cs"
  by (simp add: re_sub.simps spaces_def)

lemma spaces_space:
  "is_space c \<Longrightarrow> re_sub spaces (c # cs) = 0x20 # re_sub spaces (dropWhile is_space cs)"
  by (simp add: re_sub.simps spaces_def dropWhile_eq_drop)

lemma no_leading_space_dropWhile: "dropWhile is_space s = [] \<or> \<not> is_space (hd (dropWhile is_space s))"
  using hd_dropWhile[of is_space s] by blast

lemma dropWhile_spaces:
  "dropWhile is_space (re_sub spaces t) = re_sub spaces (dropWhile is_space t)"
proof -
  have keep: "dropWhile is_space (re_sub spaces u) = re_sub spaces u"
    if "u = [] \<or> \<not> is_space (hd u)" for u
    using that by (cases u) (auto simp: spaces_Nil spaces_other)
  show ?thesis
  proof (cases t)
    case Nil
    then show ?thesis by (simp add: spaces_Nil)
  next
    case (Cons c cs)
    show ?thesis
    proof (cases "is_space c")
      case True
      then show ?thesis
        using Cons keep[OF no_leading_space_dropWhile[of cs]]
        by (simp add: spaces_space space_is_space)
    next
      case False
      then show ?thesis using Cons by (simp add: spaces_other)
    qed
  qed
qed

lemma skip_equals_spaces:
  "t = [] \<or> \<not> is_space (hd t) \<Longrightarrow> skip_equals (re_sub spaces t) = re_sub spaces (skip_equals t)"
  by (cases t) (auto simp: skip_equals_def spaces_Nil spaces_other)

lemma skip_equals_no_leading:
  "t = [] \<or> \<not> is_space (hd t) \<Longrightarrow> dropWhile is_space (skip_equals t) = []
     \<or> \<not> is_space (hd (dropWhile is_space (skip_equals t)))"
  by (rule no_leading_space_dropWhile)

lemma abbrev_tail_spaces:
  "abbrev_tail (re_sub spaces t) = None \<longleftrightarrow> abbrev_tail t = None"
proof -
  define t2 where "t2 = dropWhile is_space t"
  define t3 where "t3 = dropWhile is_space (skip_equals t2)"
  have t2: "t2 = [] \<or> \<not> is_space (hd t2)"
    unfolding t2_def by (rule no_leading_space_dropWhile)
  have t3: "t3 = [] \<or> \<not> is_space (hd t3)"
    unfolding t3_def by (rule no_leading_space_dropWhile)
  have "dropWhile is_space (skip_equals (dropWhile is_space (re_sub spaces t)))
      = re_sub spaces t3"
    unfolding t3_def t2_def[symmetric] dropWhile_spaces
    using skip_equals_spaces[OF t2] by (simp add: dropWhile_spaces)
  moreover have "(case re_sub spaces t3 of [] \<Rightarrow> None
        | d # rest \<Rightarrow> if is_digit d then Some (d, rest) else None) = None
     \<longleftrightarrow> (case t3 of [] \<Rightarrow> None | d # rest \<Rightarrow> if is_digit d then Some (d, rest) else None) = None"
    using t3 by (cases t3) (auto simp: spaces_Nil spaces_other)
  ultimately show ?thesis
    unfolding abbrev_tail_def t3_def t2_def by simp
qed

lemma match_ci_spaces:
  assumes "\<forall>l\<in>set L. \<forall>c\<in>set (case_variants l). \<not> is_space c"
  shows "match_ci L (re_sub spaces t) = map_option (re_sub spaces) (match_ci L t)"
  using assms
proof (induction L t rule: match_ci.induct)
  case (1 t)
  then show ?case by simp
next
  case (2 l ls)
  then show ?case by (simp add: spaces_Nil)
next
  case (3 l ls c cs)
  show ?case
  proof (cases "is_space c")
    case True
    then have "c \<notin> set (case_variants l)" "0x20 \<notin> set (case_variants l)"
      using "3.prems" space_is_space by auto
    then show ?thesis using True by (simp add: spaces_space)
  next
    case False
    then show ?thesis using 3 by (simp add: spaces_other)
  qed
qed

lemma letters_not_space:
  "\<forall>l\<in>set pf_letters. \<forall>c\<in>set (case_variants l). \<not> is_space c"
  "\<forall>l\<in>set cos_letters. \<forall>c\<in>set (case_variants l). \<not> is_space c"
  by (simp_all add: pf_letters_def cos_letters_def case_variants_def is_space_def
      whitespace_table_def)

lemma abbrev_spaces:
  assumes "\<forall>l\<in>set L. \<forall>c\<in>set (case_variants l). \<not> is_space c"
  shows "abbrev L out (re_sub spaces t) = None \<longleftrightarrow> abbrev L out t = None"
proof (cases "match_ci L t")
  case None
  then show ?thesis
    by (simp add: abbrev_def match_ci_spaces[OF assms])
next
  case (Some t1)
  have "abbrev L out (re_sub spaces t) = None \<longleftrightarrow> abbrev_tail (re_sub spaces t1) = None"
    using Some by (auto simp: abbrev_def match_ci_spaces[OF assms] split: option.splits)
  moreover have "abbrev L out t = None \<longleftrightarrow> abbrev_tail t1 = None"
    using Some by (auto simp: abbrev_def split: option.splits)
  ultimately show ?thesis
    by (simp add: abbrev_tail_spaces)
qed

lemma re_search_dropWhile: "re_search m (dropWhile P s) \<Longrightarrow> re_search m s"
proof -
  assume "re_search m (dropWhile P s)"
  then obtain t where "suffix t (dropWhile P s)" "m t \<noteq> None"
    unfolding re_search_suffix by blast
  moreover have "suffix (dropWhile P s) s" by (rule suffix_dropWhile)
  ultimately have "suffix t s \<and> m t \<noteq> None"
    by (auto simp: suffix_def)
  then show "re_search m s"
    unfolding re_search_suffix by blast
qed

lemma spaces_keeps_free:
  assumes L: "\<forall>l\<in>set L. \<forall>c\<in>set (case_variants l). \<not> is_space c"
  shows "\<not> re_search (abbrev L out) s \<Longrightarrow> \<not> re_search (abbrev L out) (re_sub spaces s)"
proof (induction s rule: length_induct)
  case (1 s)
  show ?case
  proof (cases s)
    case Nil
    with "1.prems" show ?thesis by (simp add: spaces_Nil)
  next
    case (Cons c cs)
    have "abbrev L out s = None"
      using "1.prems" Cons by (cases "abbrev L out s") auto
    then have here: "abbrev L out (re_sub spaces s) = None"
      by (simp only: abbrev_spaces[OF L])
    show ?thesis
    proof (cases "is_space c")
      case True
      have "\<not> re_search (abbrev L out) (dropWhile is_space cs)"
        using "1.prems" Cons re_search_dropWhile by auto
      moreover have "length (dropWhile is_space cs) < length s"
        using Cons length_dropWhile_le[of is_space cs] by simp
      ultimately have "\<not> re_search (abbrev L out) (re_sub spaces (dropWhile is_space cs))"
        using "1.IH" by blast
      then show ?thesis
        using here True Cons by (simp add: spaces_space)
    next
      case False
      have "\<not> re_search (abbrev L out) (re_sub spaces cs)"
        using "1.IH" "1.prems" Cons by simp
      then show ?thesis
        using here False Cons by (simp add: spaces_other)
    qed
  qed
qed

lemma sublist_strip: "sublist (strip s) s"
proof -
  have "suffix (dropWhile is_space (rev (dropWhile is_space s))) (rev (dropWhile is_space s))"
    by (rule suffix_dropWhile)
  then have "prefix (strip s) (dropWhile is_space s)"
    unfolding strip_def by (metis rev_rev_ident suffix_to_prefix)
  moreover have "suffix (dropWhile is_space s) s" by (rule suffix_dropWhile)
  ultimately show ?thesis
    by (meson prefix_imp_sublist suffix_imp_sublist sublist_order.order.trans)
qed

lemma strip_fixed:
  assumes "s = [] \<or> (\<not> is_space (hd s) \<and> \<not> is_space (last s))"
  shows "strip s = s"
proof (cases s)
  case Nil
  then show ?thesis by (simp add: strip_def)
next
  case (Cons c cs)
  with assms have c: "\<not> is_space c" and l: "\<not> is_space (last s)" by auto
  have "dropWhile is_space s = s" using c Cons by simp
  moreover have "\<not> is_space (hd (rev s))"
    using l by (simp add: hd_rev)
  then have "dropWhile is_space (rev s) = rev s"
    unfolding dropWhile_eq_self_iff by blast
  ultimately show ?thesis by (simp add: strip_def)
qed

lemma strip_ends: "strip s = [] \<or> (\<not> is_space (hd (strip s)) \<and> \<not> is_space (last (strip s)))"
proof (cases "strip s = []")
  case True
  then show ?thesis by simp
next
  case False
  define a where "a = dropWhile is_space s"
  define b where "b = dropWhile is_space (rev a)"
  have st: "strip s = rev b" by (simp add: strip_def a_def b_def)
  have b: "b \<noteq> []" using False st by simp
  have "\<not> is_space (hd b)"
    using b hd_dropWhile[of is_space "rev a"] unfolding b_def by blast
  then have l: "\<not> is_space (last (strip s))"
    using b by (simp add: st last_rev)
  have "suffix b (rev a)" unfolding b_def by (rule suffix_dropWhile)
  then obtain x where x: "rev a = x @ b" by (auto simp: suffix_def)
  then have "a = rev b @ rev x" by (metis rev_append rev_rev_ident)
  then have "hd a = hd (rev b)" using b by simp
  moreover have "a \<noteq> []" using x b by auto
  then have "\<not> is_space (hd a)"
    using hd_dropWhile[of is_space s] unfolding a_def by blast
  ultimately show ?thesis using l st by simp
qed

lemma strip_strip: "strip (strip s) = strip s"
  by (rule strip_fixed) (rule strip_ends)

lemma tidy_append: "tidy (a @ b) \<Longrightarrow> tidy a \<and> tidy b"
proof (induction a)
  case Nil
  then show ?case by simp
next
  case (Cons c a)
  then show ?case by (cases a) auto
qed

lemma tidy_sublist: "tidy s \<Longrightarrow> sublist u s \<Longrightarrow> tidy u"
  by (metis sublist_def tidy_append)

lemma tidy_spaces: "tidy (re_sub spaces s)"
proof (induction s rule: length_induct)
  case (1 s)
  show ?case
  proof (cases s)
    case Nil
    then show ?thesis by (simp add: spaces_Nil)
  next
    case (Cons c cs)
    show ?thesis
    proof (cases "is_space c")
      case True
      define u where "u = dropWhile is_space cs"
      have u: "u = [] \<or> \<not> is_space (hd u)"
        unfolding u_def by (rule no_leading_space_dropWhile)
      have "length u < length s"
        unfolding u_def using Cons length_dropWhile_le[of is_space cs] by simp
      then have "tidy (re_sub spaces u)" using "1.IH" by blast
      moreover have "re_sub spaces u = [] \<or> \<not> is_space (hd (re_sub spaces u))"
        using u by (cases u) (auto simp: spaces_Nil spaces_other)
      ultimately show ?thesis
        using True Cons by (simp add: spaces_space u_def)
    next
      case False
      then show ?thesis
        using "1.IH" Cons by (simp add: spaces_other)
    qed
  qed
qed

lemma tidy_fixed: "tidy s \<Longrightarrow> re_sub spaces s = s"
proof (induction s)
  case Nil
  then show ?case by (simp add: spaces_Nil)
next
  case (Cons c cs)
  show ?case
  proof (cases "is_space c")
    case True
    then have "c = 0x20" "cs = [] \<or> \<not> is_space (hd cs)" using Cons.prems by auto
    moreover from this have "dropWhile is_space cs = cs" by (cases cs) auto
    ultimately show ?thesis
      using True Cons by (simp add: spaces_space)
  next
    case False
    then show ?thesis using Cons by (simp add: spaces_other)
  qed
qed

section \<open>Normal forms and idempotence\<close>

lemma clear_of_append: "clear_of w (ms @ ms') \<longleftrightarrow> clear_of w ms \<and> clear_of w ms'"
  by (simp add: clear_of_def)

lemma all_patterns_set:
  "set all_patterns = fst ` set UNIT_MAPPINGS \<union> fst ` set TYPO_MAPPINGS"
  by (simp add: all_patterns_def image_Un)

lemma pattern_clear_tables:
  assumes "p \<in> set all_patterns"
  shows "clear_of p UNIT_MAPPINGS" "clear_of p TYPO_MAPPINGS" "p \<noteq> []"
proof -
  have "p \<in> fst ` set (UNIT_MAPPINGS @ TYPO_MAPPINGS)"
    using assms by (simp add: all_patterns_def image_Un)
  then have "clear_of p (UNIT_MAPPINGS @ TYPO_MAPPINGS)"
    using tables_clear by blast
  then show "clear_of p UNIT_MAPPINGS" "clear_of p TYPO_MAPPINGS"
    by (simp_all add: clear_of_append)
  show "p \<noteq> []" using patterns_clear_fixed assms by blast
qed

lemma tables_remove_patterns:
  assumes "p \<in> set all_patterns"
  shows "\<not> sublist p (apply_mappings TYPO_MAPPINGS (apply_mappings UNIT_MAPPINGS s))"
proof (cases "p \<in> fst ` set UNIT_MAPPINGS")
  case True
  have "\<not> sublist p (apply_mappings UNIT_MAPPINGS s)"
    using tables_ok(1) pattern_clear_tables(1)[OF assms] True by (rule apply_mappings_removes)
  with tables_ok(2) pattern_clear_tables(2,3)[OF assms] show ?thesis
    by (rule apply_mappings_keeps_clear)
next
  case False
  then have "p \<in> fst ` set TYPO_MAPPINGS"
    using assms unfolding all_patterns_set by blast
  with tables_ok(2) pattern_clear_tables(2)[OF assms] show ?thesis
    by (rule apply_mappings_removes)
qed

lemma pf_rule_free: "\<not> re_search pf_rule (re_sub pf_rule s)"
  unfolding pf_rule_def
proof (rule abbrev_free_preserved)
  show "proper (abbrev pf_letters pf_replacement)" by (rule proper_abbrev)
  show "\<forall>t out n w. abbrev pf_letters pf_replacement t = Some (out, n)
      \<longrightarrow> abbrev_word pf_letters w \<longrightarrow> clear w out"
    using abbrev_output pf_word_clear_pf by blast
  show "\<not> re_search (abbrev pf_letters pf_replacement) s
      \<or> abbrev pf_letters pf_replacement = abbrev pf_letters pf_replacement"
    by simp
qed

lemma cos_rule_keeps_pf_free:
  assumes "\<not> re_search pf_rule s"
  shows "\<not> re_search pf_rule (re_sub cos_rule s)"
  unfolding pf_rule_def cos_rule_def
proof (rule abbrev_free_preserved)
  show "proper (abbrev cos_letters cos_replacement)" by (rule proper_abbrev)
  show "\<forall>t out n w. abbrev cos_letters cos_replacement t = Some (out, n)
      \<longrightarrow> abbrev_word pf_letters w \<longrightarrow> clear w out"
    using abbrev_output pf_word_clear_cos by blast
  show "\<not> re_search (abbrev pf_letters pf_replacement) s
      \<or> abbrev cos_letters cos_replacement = abbrev pf_letters pf_replacement"
    using assms by (simp add: pf_rule_def)
qed

lemma cos_rule_free: "\<not> re_search cos_rule (re_sub cos_rule s)"
  unfolding cos_rule_def
proof (rule abbrev_free_preserved)
  show "proper (abbrev cos_letters cos_replacement)" by (rule proper_abbrev)
  show "\<forall>t out n w. abbrev cos_letters cos_replacement t = Some (out, n)
      \<longrightarrow> abbrev_word cos_letters w \<longrightarrow> clear w out"
    using abbrev_output cos_word_clear_cos by blast
  show "\<not> re_search (abbrev cos_letters cos_replacement) s
      \<or> abbrev cos_letters cos_replacement = abbrev cos_letters cos_replacement"
    by simp
qed

lemma normalize_text_stages:
  "normalize_text x =
     strip (re_sub spaces (re_sub cos_rule (re_sub pf_rule
       (apply_mappings TYPO_MAPPINGS (apply_mappings UNIT_MAPPINGS (strip x))))))"
  by (simp add: normalize_text_def Let_def pf_rule_def cos_rule_def)

lemma normal_normalize_text: "normal (normalize_text x)"
proof -
  define s2 where "s2 = apply_mappings TYPO_MAPPINGS (apply_mappings UNIT_MAPPINGS (strip x))"
  define s3 where "s3 = re_sub pf_rule s2"
  define s4 where "s4 = re_sub cos_rule s3"
  define s5 where "s5 = re_sub spaces s4"
  have N: "normalize_text x = strip s5"
    by (simp add: normalize_text_stages s5_def s4_def s3_def s2_def)
  have sub: "sublist (strip s5) s5" by (rule sublist_strip)
  have pat: "\<not> sublist p (strip s5)" if p: "p \<in> set all_patterns" for p
  proof -
    have "\<not> sublist p s2" unfolding s2_def using p by (rule tables_remove_patterns)
    then have "\<not> sublist p s3"
      unfolding s3_def pf_rule_def using p by (intro pattern_avoids_abbrev) simp_all
    then have "\<not> sublist p s4"
      unfolding s4_def cos_rule_def using p by (intro pattern_avoids_abbrev) simp_all
    then have "\<not> sublist p s5"
      unfolding s5_def using p by (intro pattern_avoids_spaces)
    then show ?thesis
      using sub by (meson sublist_order.order.trans)
  qed
  have "\<not> re_search pf_rule s3" unfolding s3_def by (rule pf_rule_free)
  then have "\<not> re_search pf_rule s4" unfolding s4_def by (rule cos_rule_keeps_pf_free)
  then have "\<not> re_search pf_rule s5"
    unfolding s5_def pf_rule_def by (intro spaces_keeps_free letters_not_space)
  then have pf: "\<not> re_search pf_rule (strip s5)"
    unfolding pf_rule_def using sub by (rule re_search_sublist_closed)
  have "\<not> re_search cos_rule s4" unfolding s4_def by (rule cos_rule_free)
  then have "\<not> re_search cos_rule s5"
    unfolding s5_def cos_rule_def by (intro spaces_keeps_free letters_not_space)
  then have cos: "\<not> re_search cos_rule (strip s5)"
    unfolding cos_rule_def using sub by (rule re_search_sublist_closed)
  have "tidy s5" unfolding s5_def by (rule tidy_spaces)
  then have tidy: "tidy (strip s5)" using sub by (rule tidy_sublist)
  show ?thesis
    unfolding N normal_def list_all_iff using pat pf cos tidy strip_strip by blast
qed

lemma normal_fixed:
  assumes "normal s"
  shows "normalize_text s = s"
proof -
  have st: "strip s = s" and pats: "\<forall>p\<in>set all_patterns. \<not> sublist p s"
    and pf: "\<not> re_search pf_rule s" and cos: "\<not> re_search cos_rule s" and tidy: "tidy s"
    using assms by (simp_all add: normal_def list_all_iff)
  have u: "apply_mappings UNIT_MAPPINGS s = s"
    using tables_ok(1) pats unfolding all_patterns_set by (intro apply_mappings_fixed) blast+
  have t: "apply_mappings TYPO_MAPPINGS s = s"
    using tables_ok(2) pats unfolding all_patterns_set by (intro apply_mappings_fixed) blast+
  show ?thesis
    by (simp only: normalize_text_stages st u t re_sub_fixed[OF pf] re_sub_fixed[OF cos]
        tidy_fixed[OF tidy])
qed

lemma normalize_text_sample:
  "normalize_text [0x20, 0x31, 0x30, 0x30, 0xBCFC, 0xD2B8, 0x20, 0x20, 0x70, 0x46, 0x9, 0x3D,
      0x20, 0x35, 0x20, 0x63, 0x6F, 0x17F, 0x39, 0x20, 0xA]
   = [0x31, 0x30, 0x30, 0x56, 0x20, 0xC5ED, 0xB960, 0x20, 0x35, 0x20, 0x63, 0x6F, 0x73, 0x3B8,
      0x20, 0x3D, 0x20, 0x39]"
  by (simp add: normalize_eval re_sub.simps)

text \<open>
  Claim C3. The normalizer is idempotent: \<open>normalize_text (normalize_text x) =
  normalize_text x\<close> for every string \<open>x\<close>. No rule re-triggers on the output of a full
  pass: no unit or typo pattern occurs in it, neither abbreviation pattern (pf, cos) matches
  anywhere in it, and collapsing whitespace and stripping leave it as it is.
\<close>

theorem normalize_text_idempotent:
  "normalize_text (normalize_text x) = normalize_text x
   \<and> (\<forall>p\<in>fst ` set (UNIT_MAPPINGS @ TYPO_MAPPINGS). \<not> sublist p (normalize_text x))
   \<and> \<not> re_search (abbrev pf_letters pf_replacement) (normalize_text x)
   \<and> \<not> re_search (abbrev cos_letters cos_replacement) (normalize_text x)
   \<and> re_sub spaces (normalize_text x) = normalize_text x
   \<and> strip (normalize_text x) = normalize_text x"
proof -
  have n: "normal (normalize_text x)" by (rule normal_normalize_text)
  then have "normalize_text (normalize_text x) = normalize_text x"
    by (rule normal_fixed)
  moreover have "\<forall>p\<in>fst ` set (UNIT_MAPPINGS @ TYPO_MAPPINGS). \<not> sublist p (normalize_text x)"
    using n unfolding normal_def list_all_iff all_patterns_def by auto
  moreover have "re_sub spaces (normalize_text x) = normalize_text x"
    using n by (intro tidy_fixed) (simp add: normal_def)
  ultimately show ?thesis
    using n by (simp add: normal_def pf_rule_def cos_rule_def)
qed

theorem normalize_text_idempotent_witness:
  "normalize_text [0x31, 0x30, 0x30, 0x56, 0x20, 0xC5ED, 0xB960, 0x20, 0x35, 0x20, 0x63, 0x6F,
      0x73, 0x3B8, 0x20, 0x3D, 0x20, 0x39]
   = [0x31, 0x30, 0x30, 0x56, 0x20, 0xC5ED, 0xB960, 0x20, 0x35, 0x20, 0x63, 0x6F, 0x73, 0x3B8,
      0x20, 0x3D, 0x20, 0x39]"
  using normalize_text_idempotent[of "[0x20, 0x31, 0x30, 0x30, 0xBCFC, 0xD2B8, 0x20, 0x20,
      0x70, 0x46, 0x9, 0x3D, 0x20, 0x35, 0x20, 0x63, 0x6F, 0x17F, 0x39, 0x20, 0xA]"]
  unfolding normalize_text_sample by (rule conjunct1)

section \<open>The shadowed kVar rule\<close>

lemma re_sub_copies:
  assumes "\<forall>t out n. m t = Some (out, n) \<longrightarrow> t \<noteq> [] \<and> hd t \<notin> set u"
  shows "re_sub m (u @ b) = u @ re_sub m b"
  using assms
proof (induction u)
  case Nil
  then show ?case by simp
next
  case (Cons c u)
  have "m (c # u @ b) = None"
  proof (cases "m (c # u @ b)")
    case None
    then show ?thesis .
  next
    case (Some a)
    then show ?thesis using Cons.prems by (cases a) fastforce
  qed
  moreover have "\<forall>t out n. m t = Some (out, n) \<longrightarrow> t \<noteq> [] \<and> hd t \<notin> set u"
    using Cons.prems by auto
  ultimately show ?case
    using Cons.IH by (simp add: re_sub.simps)
qed

lemma re_sub_keeps:
  assumes m: "proper m"
    and cond: "\<forall>t out n. m t = Some (out, n) \<longrightarrow> hd t \<notin> set w \<and> hd w \<notin> set (take n t)"
    and w: "w \<noteq> []"
  shows "s = a @ w @ b \<Longrightarrow> sublist w (re_sub m s)"
proof (induction s arbitrary: a rule: length_induct)
  case (1 s)
  have starts: "\<forall>t out n. m t = Some (out, n) \<longrightarrow> t \<noteq> [] \<and> hd t \<notin> set w"
    using m cond unfolding proper_def by fastforce
  show ?case
  proof (cases a)
    case Nil
    then have "re_sub m s = w @ re_sub m b"
      using "1.prems" re_sub_copies[OF starts] by simp
    then show ?thesis by simp
  next
    case (Cons c a')
    then have s: "s = c # a' @ w @ b" using "1.prems" by simp
    show ?thesis
    proof (cases "m s")
      case None
      have "length (a' @ w @ b) < length s" using s by simp
      then have "sublist w (re_sub m (a' @ w @ b))"
        using "1.IH" by blast
      then show ?thesis
        using None s by (simp add: re_sub.simps sublist_Cons_right)
    next
      case (Some x)
      obtain out n where x: "x = (out, n)" by (cases x)
      have hit: "m s = Some (out, n)" using Some x by simp
      have n: "0 < n" "n \<le> length s" using m hit unfolding proper_def by blast+
      have "hd w \<notin> set (take n s)" using cond hit by blast
      have "n \<le> length a"
      proof (rule ccontr)
        assume "\<not> n \<le> length a"
        then have "length a < n" by simp
        then have "take n s = a @ take (n - length a) (w @ b)" "0 < n - length a"
          using "1.prems" by simp_all
        then have "hd w \<in> set (take n s)"
          using w by (cases w; cases "n - length a") auto
        with \<open>hd w \<notin> set (take n s)\<close> show False by blast
      qed
      then have "drop (n - 1) (a' @ w @ b) = drop (n - 1) a' @ w @ b"
        using Cons by simp
      moreover have "length (drop (n - 1) a' @ w @ b) < length s"
        using s by simp
      ultimately have "sublist w (re_sub m (drop (n - 1) (a' @ w @ b)))"
        using "1.IH" by metis
      then have "sublist w (out @ re_sub m (drop (n - 1) (a' @ w @ b)))"
        by (metis sublist_append)
      then show ?thesis
        using re_sub_hit[OF m] hit s by simp
    qed
  qed
qed

lemma literal_keeps:
  assumes "p \<noteq> []" "r \<noteq> []" "hd p \<notin> set w" "hd w \<notin> set p" "w \<noteq> []" "sublist w s"
  shows "sublist w (re_sub (literal p r) s)"
proof -
  from assms(6) obtain a b where s: "s = a @ w @ b" by (auto simp: sublist_def)
  have "\<forall>t out n. literal p r t = Some (out, n) \<longrightarrow> hd t \<notin> set w \<and> hd w \<notin> set (take n t)"
  proof (intro allI impI)
    fix t out n
    assume "literal p r t = Some (out, n)"
    then have "prefix p t" "n = length p" by (simp_all add: literal_Some)
    then obtain x where "t = p @ x" by (auto simp: prefix_def)
    then show "hd t \<notin> set w \<and> hd w \<notin> set (take n t)"
      using assms(1,3,4) \<open>n = length p\<close> by simp
  qed
  from re_sub_keeps[OF proper_literal[OF assms(1,2)] this assms(5) s] show ?thesis .
qed


lemma apply_mappings_keeps:
  "keeps w ms \<Longrightarrow> w \<noteq> [] \<Longrightarrow> sublist w s \<Longrightarrow> sublist w (apply_mappings ms s)"
proof (induction ms arbitrary: s)
  case Nil
  then show ?case by (simp add: apply_mappings_Nil)
next
  case (Cons x ms)
  obtain p r where x: "x = (p, r)" by (cases x)
  have "sublist w (re_sub (literal p r) s)"
    using Cons.prems x by (intro literal_keeps) (simp_all add: keeps_def)
  then show ?case
    using Cons x by (simp add: apply_mappings_Cons keeps_def)
qed

lemma literal_rewrites:
  assumes p: "p \<noteq> []" and r: "r \<noteq> []" and p1: "hd p \<notin> set (tl p)" and v: "hd p \<notin> set v"
  shows "s = a @ p @ v @ b \<Longrightarrow> sublist (r @ v) (re_sub (literal p r) s)"
proof (induction s arbitrary: a rule: length_induct)
  case (1 s)
  have m: "proper (literal p r)" using p r by (rule proper_literal)
  have starts: "\<forall>t out n. literal p r t = Some (out, n) \<longrightarrow> t \<noteq> [] \<and> hd t \<notin> set v"
  proof (intro allI impI)
    fix t out n
    assume "literal p r t = Some (out, n)"
    then obtain x where "t = p @ x" by (auto simp: literal_Some prefix_def)
    then show "t \<noteq> [] \<and> hd t \<notin> set v" using p v by simp
  qed
  obtain c p' where pc: "p = c # p'" using p by (cases p) auto
  show ?case
  proof (cases a)
    case Nil
    then have s: "s = c # p' @ v @ b" using "1.prems" pc by simp
    have "literal p r s = Some (r, length p)"
      using s pc by (simp add: literal_def)
    then have "re_sub (literal p r) s = r @ re_sub (literal p r) (drop (length p - 1) (p' @ v @ b))"
      using re_sub_hit[OF m] s by simp
    also have "drop (length p - 1) (p' @ v @ b) = v @ b" using pc by simp
    also have "re_sub (literal p r) (v @ b) = v @ re_sub (literal p r) b"
      by (rule re_sub_copies[OF starts])
    finally show ?thesis by (metis append.assoc sublist_append_rightI)
  next
    case (Cons d a')
    then have s: "s = d # a' @ p @ v @ b" using "1.prems" by simp
    show ?thesis
    proof (cases "prefix p s")
      case False
      then have "re_sub (literal p r) s = d # re_sub (literal p r) (a' @ p @ v @ b)"
        using s by (simp add: re_sub.simps literal_def)
      moreover have "length (a' @ p @ v @ b) < length s" using s by simp
      then have "sublist (r @ v) (re_sub (literal p r) (a' @ p @ v @ b))"
        using "1.IH" by blast
      ultimately show ?thesis by (simp add: sublist_Cons_right)
    next
      case True
      have len: "length p \<le> length a"
      proof (rule ccontr)
        assume "\<not> length p \<le> length a"
        then have short: "length a < length p" by simp
        from True obtain x where x: "s = p @ x" by (auto simp: prefix_def)
        have "p ! length a = s ! length a"
          using x short by (simp add: nth_append)
        also have "\<dots> = hd p"
          using "1.prems" p by (simp add: nth_append hd_conv_nth)
        finally have "p ! length a = hd p" .
        moreover have "0 < length a" using Cons by simp
        ultimately have "hd p \<in> set (tl p)"
          using short pc by (cases "length a") (auto simp: in_set_conv_nth)
        with p1 show False by blast
      qed
      have hit: "literal p r s = Some (r, length p)"
        using True by (simp add: literal_def)
      have "drop (length p - 1) (a' @ p @ v @ b) = drop (length p - 1) a' @ p @ v @ b"
        using len Cons by simp
      moreover have "length (drop (length p - 1) a' @ p @ v @ b) < length s"
        using s by simp
      ultimately have "sublist (r @ v) (re_sub (literal p r) (drop (length p - 1) (a' @ p @ v @ b)))"
        using "1.IH" by metis
      then have "sublist (r @ v) (r @ re_sub (literal p r) (drop (length p - 1) (a' @ p @ v @ b)))"
        by (metis sublist_append)
      then show ?thesis
        using re_sub_hit[OF m] hit s by simp
    qed
  qed
qed

lemma dropWhile_keeps:
  "w \<noteq> [] \<Longrightarrow> \<not> P (hd w) \<Longrightarrow> s = a @ w @ b \<Longrightarrow> sublist w (dropWhile P s)"
proof (induction a arbitrary: s)
  case Nil
  then show ?case by (cases w) auto
next
  case (Cons c a)
  have "sublist w ((c # a) @ w @ b)" by (rule sublist_appendI)
  then show ?case
    using Cons by (cases "P c") auto
qed

lemma strip_keeps:
  assumes "w \<noteq> []" "\<not> is_space (hd w)" "\<not> is_space (last w)" "sublist w s"
  shows "sublist w (strip s)"
proof -
  from assms(4) obtain a b where "s = a @ w @ b" by (auto simp: sublist_def)
  then have "sublist w (dropWhile is_space s)"
    using dropWhile_keeps[of w is_space s a b] assms(1,2) by blast
  then have "sublist (rev w) (rev (dropWhile is_space s))" by simp
  then obtain a' b' where "rev (dropWhile is_space s) = a' @ rev w @ b'"
    by (auto simp: sublist_def)
  moreover have "rev w \<noteq> []" "\<not> is_space (hd (rev w))"
    using assms(1,3) by (simp_all add: hd_rev)
  ultimately have "sublist (rev w) (dropWhile is_space (rev (dropWhile is_space s)))"
    using dropWhile_keeps[of "rev w" is_space "rev (dropWhile is_space s)" a' b'] by blast
  then have "sublist (rev (rev w)) (rev (dropWhile is_space (rev (dropWhile is_space s))))"
    by (simp only: sublist_rev)
  then show ?thesis by (simp add: strip_def)
qed

lemma kvar_chars:
  "\<not> gap_char 0x6B" "\<not> is_space 0x6B" "\<not> is_space 0x56" "\<not> is_space 0x41"
  "\<not> is_space 0xB974" "\<not> is_space 0xD0A4"
  by (simp_all add: gap_char_def is_space_def whitespace_table_def is_digit_def decimal_zeros_def)

lemma unit_split:
  "UNIT_MAPPINGS = take 10 UNIT_MAPPINGS
     @ ([0xD0A4, 0xB85C, 0xBC14], [0x6B, 0x56, 0x41]) # drop 11 UNIT_MAPPINGS"
  by (simp add: UNIT_MAPPINGS_def)

lemma kirobar_kept_before:
  "keeps [0xD0A4, 0xB85C, 0xBC14, 0xB974] (take 10 UNIT_MAPPINGS)"
  by (simp add: keeps_def UNIT_MAPPINGS_def)

lemma kva_kept_after:
  "keeps [0x6B, 0x56, 0x41, 0xB974] (drop 11 UNIT_MAPPINGS)"
  "keeps [0x6B, 0x56, 0x41, 0xB974] TYPO_MAPPINGS"
  by (simp_all add: keeps_def UNIT_MAPPINGS_def TYPO_MAPPINGS_def)

lemma pf_rule_keeps_kva:
  assumes "sublist [0x6B, 0x56, 0x41, 0xB974] s"
  shows "sublist [0x6B, 0x56, 0x41, 0xB974] (re_sub pf_rule s)"
proof -
  from assms obtain a b where s: "s = a @ [0x6B, 0x56, 0x41, 0xB974] @ b"
    by (auto simp: sublist_def)
  have "\<forall>t out n. pf_rule t = Some (out, n) \<longrightarrow>
      hd t \<notin> set [0x6B, 0x56, 0x41, 0xB974] \<and> hd [0x6B, 0x56, 0x41, 0xB974] \<notin> set (take n t)"
  proof (intro allI impI)
    fix t out n
    assume hit: "pf_rule t = Some (out, n)"
    then have "abbrev_word pf_letters (take n t)"
      unfolding pf_rule_def by (rule abbrev_matched_word)
    then obtain x y mid where w: "take n t = x # y # mid" "x = 0x70 \<or> x = 0x50"
      "y = 0x66 \<or> y = 0x46" "\<forall>c\<in>set mid. gap_char c"
      by (rule pf_word_shape)
    have "hd t = x" using w(1) by (cases t; cases n) auto
    then show "hd t \<notin> set [0x6B, 0x56, 0x41, 0xB974]
        \<and> hd [0x6B, 0x56, 0x41, 0xB974] \<notin> set (take n t)"
      using w kvar_chars(1) by auto
  qed
  from re_sub_keeps[OF _ this _ s] show ?thesis
    by (simp add: pf_rule_def proper_abbrev)
qed

lemma cos_rule_keeps_kva:
  assumes "sublist [0x6B, 0x56, 0x41, 0xB974] s"
  shows "sublist [0x6B, 0x56, 0x41, 0xB974] (re_sub cos_rule s)"
proof -
  from assms obtain a b where s: "s = a @ [0x6B, 0x56, 0x41, 0xB974] @ b"
    by (auto simp: sublist_def)
  have "\<forall>t out n. cos_rule t = Some (out, n) \<longrightarrow>
      hd t \<notin> set [0x6B, 0x56, 0x41, 0xB974] \<and> hd [0x6B, 0x56, 0x41, 0xB974] \<notin> set (take n t)"
  proof (intro allI impI)
    fix t out n
    assume hit: "cos_rule t = Some (out, n)"
    then have "abbrev_word cos_letters (take n t)"
      unfolding cos_rule_def by (rule abbrev_matched_word)
    then obtain x y z g mid where w: "take n t = x # y # z # g # mid" "x = 0x63 \<or> x = 0x43"
      "y = 0x6F \<or> y = 0x4F" "z = 0x73 \<or> z = 0x53 \<or> z = 0x17F" "gap_char g"
      "\<forall>c\<in>set mid. gap_char c"
      by (rule cos_word_shape)
    have "hd t = x" using w(1) by (cases t; cases n) auto
    then show "hd t \<notin> set [0x6B, 0x56, 0x41, 0xB974]
        \<and> hd [0x6B, 0x56, 0x41, 0xB974] \<notin> set (take n t)"
      using w kvar_chars(1) by auto
  qed
  from re_sub_keeps[OF _ this _ s] show ?thesis
    by (simp add: cos_rule_def proper_abbrev)
qed

lemma spaces_keeps_kva:
  assumes "sublist [0x6B, 0x56, 0x41, 0xB974] s"
  shows "sublist [0x6B, 0x56, 0x41, 0xB974] (re_sub spaces s)"
proof -
  from assms obtain a b where s: "s = a @ [0x6B, 0x56, 0x41, 0xB974] @ b"
    by (auto simp: sublist_def)
  have "\<forall>t out n. spaces t = Some (out, n) \<longrightarrow>
      hd t \<notin> set [0x6B, 0x56, 0x41, 0xB974] \<and> hd [0x6B, 0x56, 0x41, 0xB974] \<notin> set (take n t)"
  proof (intro allI impI)
    fix t out n
    assume hit: "spaces t = Some (out, n)"
    then have n: "n = length (takeWhile is_space t)" "0 < n"
      unfolding spaces_Some by blast+
    have "take n t = takeWhile is_space t"
      unfolding n(1) by (rule takeWhile_eq_take[symmetric])
    then have all: "\<forall>c\<in>set (take n t). is_space c"
      by (metis set_takeWhileD)
    have "t \<noteq> []" using n by auto
    then have "hd t \<in> set (take n t)" using n(2) by (cases t; cases n) auto
    then have "is_space (hd t)" using all by blast
    then show "hd t \<notin> set [0x6B, 0x56, 0x41, 0xB974]
        \<and> hd [0x6B, 0x56, 0x41, 0xB974] \<notin> set (take n t)"
      using all kvar_chars by auto
  qed
  from re_sub_keeps[OF proper_spaces this _ s] show ?thesis by simp
qed

lemma kirobar_becomes_kva:
  assumes "sublist [0xD0A4, 0xB85C, 0xBC14, 0xB974] t"
  shows "sublist [0x6B, 0x56, 0x41, 0xB974] (normalize_text t)"
proof -
  define s0 where "s0 = strip t"
  define s1 where "s1 = apply_mappings (take 10 UNIT_MAPPINGS) s0"
  define s2 where "s2 = re_sub (literal [0xD0A4, 0xB85C, 0xBC14] [0x6B, 0x56, 0x41]) s1"
  define s3 where "s3 = apply_mappings (drop 11 UNIT_MAPPINGS) s2"
  define s4 where "s4 = apply_mappings TYPO_MAPPINGS s3"
  have "apply_mappings UNIT_MAPPINGS s0 = s3"
    unfolding s3_def s2_def s1_def
    by (subst unit_split) (simp only: apply_mappings_append apply_mappings_Cons)
  then have N: "normalize_text t = strip (re_sub spaces (re_sub cos_rule (re_sub pf_rule s4)))"
    by (simp add: normalize_text_stages s0_def s4_def)
  have "sublist [0xD0A4, 0xB85C, 0xBC14, 0xB974] s0"
    unfolding s0_def using assms kvar_chars by (intro strip_keeps) simp_all
  then have "sublist [0xD0A4, 0xB85C, 0xBC14, 0xB974] s1"
    unfolding s1_def using kirobar_kept_before by (intro apply_mappings_keeps) simp_all
  then obtain a b where "s1 = a @ [0xD0A4, 0xB85C, 0xBC14] @ [0xB974] @ b"
    by (auto simp: sublist_def)
  then have "sublist ([0x6B, 0x56, 0x41] @ [0xB974]) s2"
    unfolding s2_def by (intro literal_rewrites) simp_all
  then have "sublist [0x6B, 0x56, 0x41, 0xB974] s3"
    unfolding s3_def using kva_kept_after(1) by (intro apply_mappings_keeps) simp_all
  then have "sublist [0x6B, 0x56, 0x41, 0xB974] s4"
    unfolding s4_def using kva_kept_after(2) by (intro apply_mappings_keeps) simp_all
  then have "sublist [0x6B, 0x56, 0x41, 0xB974] (re_sub pf_rule s4)"
    by (rule pf_rule_keeps_kva)
  then have "sublist [0x6B, 0x56, 0x41, 0xB974] (re_sub cos_rule (re_sub pf_rule s4))"
    by (rule cos_rule_keeps_kva)
  then have "sublist [0x6B, 0x56, 0x41, 0xB974]
      (re_sub spaces (re_sub cos_rule (re_sub pf_rule s4)))"
    by (rule spaces_keeps_kva)
  then show ?thesis
    unfolding N using kvar_chars by (intro strip_keeps) simp_all
qed

lemma kirobar_never_matches:
  "\<not> sublist [0xD0A4, 0xB85C, 0xBC14, 0xB974] (apply_mappings (take 12 UNIT_MAPPINGS) s)"
proof -
  have "\<not> sublist [0xD0A4, 0xB85C, 0xBC14] (apply_mappings (take 12 UNIT_MAPPINGS) s)"
  proof (rule apply_mappings_removes)
    show "mappings_ok (take 12 UNIT_MAPPINGS)"
      by (simp add: mappings_ok_def UNIT_MAPPINGS_def)
    show "clear_of [0xD0A4, 0xB85C, 0xBC14] (take 12 UNIT_MAPPINGS)"
      by (simp add: clear_of_def clear_def UNIT_MAPPINGS_def)
    show "[0xD0A4, 0xB85C, 0xBC14] \<in> fst ` set (take 12 UNIT_MAPPINGS)"
      by (simp add: UNIT_MAPPINGS_def)
  qed
  moreover have "sublist [0xD0A4, 0xB85C, 0xBC14] [0xD0A4, 0xB85C, 0xBC14, 0xB974]"
    by (simp add: sublist_Cons_right)
  ultimately show ?thesis
    by (meson sublist_order.order.trans)
qed

lemma normalize_text_100_kirobar:
  "normalize_text [0x31, 0x30, 0x30, 0xD0A4, 0xB85C, 0xBC14, 0xB974]
     = [0x31, 0x30, 0x30, 0x6B, 0x56, 0x41, 0xB974]"
  by (simp add: normalize_eval re_sub.simps)

lemma re_sub_splits:
  assumes m: "proper m"
    and same: "\<forall>t. t \<noteq> [] \<longrightarrow> m (t @ w @ b) = m t"
    and base: "re_sub m (w @ b) = w' @ re_sub m b"
  shows "re_sub m (a @ w @ b) = re_sub m a @ w' @ re_sub m b"
proof (induction a rule: length_induct)
  case (1 a)
  show ?case
  proof (cases a)
    case Nil
    then show ?thesis using base m by (simp add: re_sub_Nil)
  next
    case (Cons c a')
    have eq: "m (c # a' @ w @ b) = m (c # a')"
      using same[rule_format, of "c # a'"] by simp
    show ?thesis
    proof (cases "m (c # a')")
      case None
      have "re_sub m (a' @ w @ b) = re_sub m a' @ w' @ re_sub m b"
        using "1.IH" Cons by simp
      then show ?thesis
        using None eq Cons by (simp add: re_sub_miss)
    next
      case (Some x)
      obtain out n where x: "x = (out, n)" by (cases x)
      have hit: "m (c # a') = Some (out, n)" using Some x by simp
      have n: "0 < n" "n \<le> length (c # a')" using m hit unfolding proper_def by blast+
      then have d: "drop (n - 1) (a' @ w @ b) = drop (n - 1) a' @ w @ b"
        by simp
      have "length (drop (n - 1) a') < length a" using Cons by simp
      then have "re_sub m (drop (n - 1) a' @ w @ b) = re_sub m (drop (n - 1) a') @ w' @ re_sub m b"
        using "1.IH" by blast
      then show ?thesis
        using re_sub_hit[OF m hit] re_sub_hit[OF m, of c "a' @ w @ b" out n] hit eq d Cons
        by simp
    qed
  qed
qed

lemma literal_same:
  assumes "p \<noteq> []" "w \<noteq> []" "hd w \<notin> set p" "t \<noteq> []"
  shows "literal p r (t @ w @ b) = literal p r t"
proof -
  have "prefix p (t @ w @ b) \<longleftrightarrow> prefix p t"
  proof
    assume "prefix p (t @ w @ b)"
    then consider "prefix p t" | us where "p = t @ us" "prefix us (w @ b)" "us \<noteq> []"
      unfolding prefix_append by (metis append_Nil2 prefix_order.order_refl)
    then show "prefix p t"
    proof cases
      case 1
      then show ?thesis .
    next
      case 2
      then have "hd us = hd w" using assms(2) by (cases us; cases w) auto
      then have "hd w \<in> set p" using 2(1,3) by (cases us) auto
      with assms(3) show ?thesis by blast
    qed
  next
    assume "prefix p t"
    then show "prefix p (t @ w @ b)" by (rule prefix_prefix)
  qed
  then show ?thesis by (simp add: literal_def)
qed

lemma literal_starts:
  assumes "p \<noteq> []" "hd p \<notin> set w"
  shows "\<forall>t out n. literal p r t = Some (out, n) \<longrightarrow> t \<noteq> [] \<and> hd t \<notin> set w"
proof (intro allI impI)
  fix t out n
  assume "literal p r t = Some (out, n)"
  then obtain x where "t = p @ x" by (auto simp: literal_Some prefix_def)
  then show "t \<noteq> [] \<and> hd t \<notin> set w" using assms by simp
qed

lemma literal_splits:
  assumes "p \<noteq> []" "r \<noteq> []" "hd p \<notin> set w" "hd w \<notin> set p" "w \<noteq> []"
  shows "re_sub (literal p r) (a @ w @ b) = re_sub (literal p r) a @ w @ re_sub (literal p r) b"
proof (rule re_sub_splits)
  show "proper (literal p r)" using assms(1,2) by (rule proper_literal)
  show "\<forall>t. t \<noteq> [] \<longrightarrow> literal p r (t @ w @ b) = literal p r t"
    using literal_same[OF assms(1,5,4)] by blast
  show "re_sub (literal p r) (w @ b) = w @ re_sub (literal p r) b"
    by (rule re_sub_copies[OF literal_starts[OF assms(1,3)]])
qed

lemma apply_mappings_splits:
  "keeps w ms \<Longrightarrow> w \<noteq> [] \<Longrightarrow>
     apply_mappings ms (a @ w @ b) = apply_mappings ms a @ w @ apply_mappings ms b"
proof (induction ms arbitrary: a b)
  case Nil
  then show ?case by (simp add: apply_mappings_Nil)
next
  case (Cons x ms)
  obtain p r where x: "x = (p, r)" by (cases x)
  have "re_sub (literal p r) (a @ w @ b)
      = re_sub (literal p r) a @ w @ re_sub (literal p r) b"
    using Cons.prems x by (intro literal_splits) (simp_all add: keeps_def)
  moreover have "keeps w ms" using Cons.prems(1) by (simp add: keeps_def)
  ultimately show ?case
    using Cons.IH Cons.prems(2) x by (simp add: apply_mappings_Cons)
qed

lemma literal_rewrites_splits:
  assumes p: "p \<noteq> []" and r: "r \<noteq> []" and p1: "hd p \<notin> set (tl p)" and v: "hd p \<notin> set v"
  shows "re_sub (literal p r) (a @ (p @ v) @ b)
      = re_sub (literal p r) a @ (r @ v) @ re_sub (literal p r) b"
proof (rule re_sub_splits)
  show m: "proper (literal p r)" using p r by (rule proper_literal)
  obtain c p' where pc: "p = c # p'" using p by (cases p) auto
  show "\<forall>t. t \<noteq> [] \<longrightarrow> literal p r (t @ (p @ v) @ b) = literal p r t"
  proof (intro allI impI)
    fix t :: pystr
    assume t: "t \<noteq> []"
    have "prefix p (t @ (p @ v) @ b) \<longleftrightarrow> prefix p t"
    proof
      assume "prefix p (t @ (p @ v) @ b)"
      then consider "prefix p t" | us where "p = t @ us" "prefix us ((p @ v) @ b)" "us \<noteq> []"
        unfolding prefix_append by (metis append_Nil2 prefix_order.order_refl)
      then show "prefix p t"
      proof cases
        case 1
        then show ?thesis .
      next
        case 2
        have "hd us = hd p" using 2(2,3) pc by (cases us) auto
        then have "hd p \<in> set us" using 2(3) by (cases us) auto
        moreover have "set us \<subseteq> set (tl p)" using 2(1) t by (cases t) auto
        ultimately show ?thesis using p1 by blast
      qed
    next
      assume "prefix p t"
      then show "prefix p (t @ (p @ v) @ b)" by (rule prefix_prefix)
    qed
    then show "literal p r (t @ (p @ v) @ b) = literal p r t" by (simp add: literal_def)
  qed
  have "literal p r (c # p' @ v @ b) = Some (r, length p)"
    using pc by (simp add: literal_def)
  then have "re_sub (literal p r) (c # p' @ v @ b)
      = r @ re_sub (literal p r) (drop (length p - 1) (p' @ v @ b))"
    by (rule re_sub_hit[OF m])
  moreover have "drop (length p - 1) (p' @ v @ b) = v @ b" using pc by simp
  moreover have "re_sub (literal p r) (v @ b) = v @ re_sub (literal p r) b"
    by (rule re_sub_copies[OF literal_starts[OF p v]])
  ultimately show "re_sub (literal p r) ((p @ v) @ b) = (r @ v) @ re_sub (literal p r) b"
    using pc by simp
qed

lemma list_all2_set_left:
  "list_all2 P xs ys \<Longrightarrow> x \<in> set xs \<Longrightarrow> \<exists>y\<in>set ys. P x y"
  by (induction rule: list_all2_induct) auto

lemma abbrev_word_chars:
  assumes "abbrev_word L word" "c \<in> set word"
  shows "gap_char c \<or> (\<exists>l\<in>set L. c \<in> set (case_variants l))"
proof -
  from assms(1) obtain pre mid where *: "word = pre @ mid"
    "list_all2 (\<lambda>c l. c \<in> set (case_variants l)) pre L" "\<forall>c\<in>set mid. gap_char c"
    unfolding abbrev_word_iff by blast
  show ?thesis
  proof (cases "c \<in> set pre")
    case True
    then show ?thesis using list_all2_set_left[OF *(2)] by blast
  next
    case False
    then show ?thesis using assms(2) * by auto
  qed
qed

lemma abbrev_same:
  assumes w: "w \<noteq> []" and g: "\<not> gap_char (hd w)"
    and l: "\<forall>l\<in>set L. hd w \<notin> set (case_variants l)" and t: "t \<noteq> []"
  shows "abbrev L out (t @ w @ b) = abbrev L out t"
proof (cases "abbrev L out t")
  case (Some x)
  obtain o' n where "x = (o', n)" by (cases x)
  then show ?thesis using Some abbrev_extend[of L out t o' n "w @ b"] by simp
next
  case None
  have "abbrev L out (t @ w @ b) = None"
  proof (cases "abbrev L out (t @ w @ b)")
    case None
    then show ?thesis .
  next
    case (Some x)
    obtain o' n where x: "x = (o', n)" by (cases x)
    have hit: "abbrev L out (t @ w @ b) = Some (o', n)" using Some x by simp
    have word: "abbrev_word L (take n (t @ w @ b))" using hit by (rule abbrev_matched_word)
    have "n \<le> length t"
    proof (rule ccontr)
      assume "\<not> n \<le> length t"
      then have "take n (t @ w @ b) = t @ take (n - length t) (w @ b)" "0 < n - length t"
        by simp_all
      then have "hd w \<in> set (take n (t @ w @ b))"
        using w by (cases w; cases "n - length t") auto
      with abbrev_word_chars[OF word] g l show False by blast
    qed
    then have "take n (t @ w @ b) = take n t" by simp
    then have "abbrev L out (take n t) = Some (o', n)"
      using abbrev_take[OF hit] by (simp only:)
    then have "abbrev L out (take n t @ drop n t) = Some (o', n)"
      by (rule abbrev_extend)
    with None show ?thesis by simp
  qed
  with None show ?thesis by simp
qed

lemma abbrev_starts:
  assumes "\<forall>c\<in>set w. c \<notin> set (case_variants l)"
  shows "\<forall>t o' n. abbrev (l # ls) out t = Some (o', n) \<longrightarrow> t \<noteq> [] \<and> hd t \<notin> set w"
proof (intro allI impI)
  fix t o' n
  assume "abbrev (l # ls) out t = Some (o', n)"
  then obtain c cs where "t = c # cs" "c \<in> set (case_variants l)"
    by (cases t) (auto simp: abbrev_def split: option.splits if_splits)
  then show "t \<noteq> [] \<and> hd t \<notin> set w" using assms by auto
qed

lemma abbrev_splits:
  assumes "w \<noteq> []" "\<not> gap_char (hd w)" "\<forall>l'\<in>set (l # ls). hd w \<notin> set (case_variants l')"
    "\<forall>c\<in>set w. c \<notin> set (case_variants l)"
  shows "re_sub (abbrev (l # ls) out) (a @ w @ b)
      = re_sub (abbrev (l # ls) out) a @ w @ re_sub (abbrev (l # ls) out) b"
proof (rule re_sub_splits)
  show "proper (abbrev (l # ls) out)" by (rule proper_abbrev)
  show "\<forall>t. t \<noteq> [] \<longrightarrow> abbrev (l # ls) out (t @ w @ b) = abbrev (l # ls) out t"
    using abbrev_same[OF assms(1,2,3)] by blast
  show "re_sub (abbrev (l # ls) out) (w @ b) = w @ re_sub (abbrev (l # ls) out) b"
    by (rule re_sub_copies[OF abbrev_starts[OF assms(4)]])
qed

lemma spaces_same:
  assumes "w \<noteq> []" "\<not> is_space (hd w)" "t \<noteq> []"
  shows "spaces (t @ w @ b) = spaces t"
proof -
  have wb: "takeWhile is_space (w @ b) = []" using assms(1,2) by (cases w) auto
  have "takeWhile is_space (t @ w @ b) = takeWhile is_space t"
  proof (cases "\<forall>x\<in>set t. is_space x")
    case True
    then have 1: "takeWhile is_space (t @ w @ b) = t @ takeWhile is_space (w @ b)"
      by (simp add: takeWhile_append2)
    have 2: "takeWhile is_space t = t"
      using True takeWhile_eq_all_conv[of is_space t] by blast
    show ?thesis by (simp only: 1 2 wb append_Nil2)
  next
    case False
    then obtain x where "x \<in> set t" "\<not> is_space x" by blast
    then show ?thesis by (rule takeWhile_append1)
  qed
  then show ?thesis by (simp add: spaces_def)
qed

lemma spaces_splits:
  assumes "w \<noteq> []" "\<forall>c\<in>set w. \<not> is_space c"
  shows "re_sub spaces (a @ w @ b) = re_sub spaces a @ w @ re_sub spaces b"
proof (rule re_sub_splits)
  show "proper spaces" by (rule proper_spaces)
  have "\<not> is_space (hd w)" using assms by (cases w) auto
  then show "\<forall>t. t \<noteq> [] \<longrightarrow> spaces (t @ w @ b) = spaces t"
    using spaces_same[OF assms(1)] by blast
  have "\<forall>t out n. spaces t = Some (out, n) \<longrightarrow> t \<noteq> [] \<and> hd t \<notin> set w"
  proof (intro allI impI)
    fix t out n
    assume "spaces t = Some (out, n)"
    then have "t \<noteq> []" "is_space (hd t)"
      using spaces_None[of t] by auto
    then show "t \<noteq> [] \<and> hd t \<notin> set w" using assms(2) by blast
  qed
  then show "re_sub spaces (w @ b) = w @ re_sub spaces b"
    by (rule re_sub_copies)
qed

lemma kva_chars:
  "\<not> gap_char (hd [0x6B, 0x56, 0x41, 0xB974])"
  "\<forall>l\<in>set pf_letters. hd [0x6B, 0x56, 0x41, 0xB974] \<notin> set (case_variants l)"
  "\<forall>l\<in>set cos_letters. hd [0x6B, 0x56, 0x41, 0xB974] \<notin> set (case_variants l)"
  "\<forall>c\<in>set [0x6B, 0x56, 0x41, 0xB974]. c \<notin> set (case_variants 0x70)"
  "\<forall>c\<in>set [0x6B, 0x56, 0x41, 0xB974]. c \<notin> set (case_variants 0x63)"
  "\<forall>c\<in>set [0x6B, 0x56, 0x41, 0xB974]. \<not> is_space c"
  by (simp_all add: kvar_chars pf_letters_def cos_letters_def case_variants_def)

lemma rewrite_stages_splits:
  "rewrite_stages (a @ [0xD0A4, 0xB85C, 0xBC14, 0xB974] @ b)
     = rewrite_stages a @ [0x6B, 0x56, 0x41, 0xB974] @ rewrite_stages b"
proof -
  define u1 where "u1 = apply_mappings (take 10 UNIT_MAPPINGS)"
  define u2 where "u2 = re_sub (literal [0xD0A4, 0xB85C, 0xBC14] [0x6B, 0x56, 0x41])"
  define u3 where "u3 = apply_mappings (drop 11 UNIT_MAPPINGS)"
  define ty where "ty = apply_mappings TYPO_MAPPINGS"
  define pf where "pf = re_sub (abbrev pf_letters pf_replacement)"
  define co where "co = re_sub (abbrev cos_letters cos_replacement)"
  have units: "apply_mappings UNIT_MAPPINGS s = u3 (u2 (u1 s))" for s
    unfolding u1_def u2_def u3_def
    by (subst unit_split) (simp only: apply_mappings_append apply_mappings_Cons)
  have stages: "rewrite_stages s = re_sub spaces (co (pf (ty (u3 (u2 (u1 s))))))" for s
    by (simp add: rewrite_stages_def units ty_def pf_def co_def)
  have 1: "u1 (a @ [0xD0A4, 0xB85C, 0xBC14, 0xB974] @ b)
      = u1 a @ [0xD0A4, 0xB85C, 0xBC14, 0xB974] @ u1 b"
    unfolding u1_def using kirobar_kept_before by (intro apply_mappings_splits) simp_all
  have 2: "u2 (x @ [0xD0A4, 0xB85C, 0xBC14, 0xB974] @ y)
      = u2 x @ [0x6B, 0x56, 0x41, 0xB974] @ u2 y" for x y
    unfolding u2_def
    using literal_rewrites_splits[of "[0xD0A4, 0xB85C, 0xBC14]" "[0x6B, 0x56, 0x41]" "[0xB974]" x y]
    by simp
  have 3: "u3 (x @ [0x6B, 0x56, 0x41, 0xB974] @ y) = u3 x @ [0x6B, 0x56, 0x41, 0xB974] @ u3 y"
    for x y
    unfolding u3_def using kva_kept_after(1) by (intro apply_mappings_splits) simp_all
  have 4: "ty (x @ [0x6B, 0x56, 0x41, 0xB974] @ y) = ty x @ [0x6B, 0x56, 0x41, 0xB974] @ ty y"
    for x y
    unfolding ty_def using kva_kept_after(2) by (intro apply_mappings_splits) simp_all
  have 5: "pf (x @ [0x6B, 0x56, 0x41, 0xB974] @ y) = pf x @ [0x6B, 0x56, 0x41, 0xB974] @ pf y"
    for x y
    unfolding pf_def pf_letters_def
    using kva_chars(1,2,4) by (intro abbrev_splits) (simp_all add: pf_letters_def)
  have 6: "co (x @ [0x6B, 0x56, 0x41, 0xB974] @ y) = co x @ [0x6B, 0x56, 0x41, 0xB974] @ co y"
    for x y
    unfolding co_def cos_letters_def
    using kva_chars(1,3,5) by (intro abbrev_splits) (simp_all add: cos_letters_def)
  have 7: "re_sub spaces (x @ [0x6B, 0x56, 0x41, 0xB974] @ y)
      = re_sub spaces x @ [0x6B, 0x56, 0x41, 0xB974] @ re_sub spaces y" for x y
    using kva_chars(6) by (intro spaces_splits) simp_all
  show ?thesis
    unfolding stages by (simp only: 1 2 3 4 5 6 7)
qed

lemma strip_lstrip_rstrip: "strip s = rstrip (lstrip s)"
  by (simp add: strip_def lstrip_def rstrip_def)

lemma lstrip_split:
  assumes "w \<noteq> []" "\<not> is_space (hd w)"
  shows "lstrip (a @ w @ b) = lstrip a @ w @ b"
proof -
  have "dropWhile is_space (w @ b) = w @ b" using assms by (cases w) auto
  then show ?thesis
    by (simp add: lstrip_def dropWhile_append)
qed

lemma rstrip_split:
  assumes "w \<noteq> []" "\<not> is_space (last w)"
  shows "rstrip (a @ w @ b) = a @ w @ rstrip b"
proof -
  have "rev w \<noteq> []" "\<not> is_space (hd (rev w))" using assms by (simp_all add: hd_rev)
  then have "lstrip (rev b @ rev w @ rev a) = lstrip (rev b) @ rev w @ rev a"
    by (rule lstrip_split)
  then show ?thesis
    by (simp add: rstrip_def lstrip_def)
qed

lemma join_Cons: "xs \<noteq> [] \<Longrightarrow> join w (u # xs) = u @ w @ join w xs"
  by (cases xs) auto

lemma join_snoc: "us \<noteq> [] \<Longrightarrow> join w (us @ [z]) = join w us @ w @ z"
proof (induction us)
  case Nil
  then show ?case by simp
next
  case (Cons u us)
  then show ?case by (cases us) auto
qed

lemma rstrip_join:
  assumes "w \<noteq> []" "\<not> is_space (last w)"
  shows "rstrip (join w (vs @ [z])) = join w (vs @ [rstrip z])"
proof (cases "vs = []")
  case True
  then show ?thesis by simp
next
  case False
  then show ?thesis
    using rstrip_split[OF assms] by (simp add: join_snoc)
qed

lemma strip_join:
  assumes "w \<noteq> []" "\<not> is_space (hd w)" "\<not> is_space (last w)"
  shows "strip (join w (u # vs @ [z])) = join w (lstrip u # vs @ [rstrip z])"
proof -
  have "join w (u # vs @ [z]) = u @ w @ join w (vs @ [z])"
    by (rule join_Cons) simp
  then have "lstrip (join w (u # vs @ [z])) = lstrip u @ w @ join w (vs @ [z])"
    using lstrip_split[OF assms(1,2)] by simp
  then have "strip (join w (u # vs @ [z])) = lstrip u @ w @ rstrip (join w (vs @ [z]))"
    using rstrip_split[OF assms(1,3)] by (simp add: strip_lstrip_rstrip)
  also have "\<dots> = lstrip u @ w @ join w (vs @ [rstrip z])"
    using rstrip_join[OF assms(1,3)] by simp
  also have "\<dots> = join w (lstrip u # vs @ [rstrip z])"
    by (rule join_Cons[symmetric]) simp
  finally show ?thesis .
qed

lemma map_join:
  assumes "\<And>a b. f (a @ w @ b) = f a @ w' @ f b"
  shows "f (join w (u # us)) = join w' (map f (u # us))"
proof (induction us arbitrary: u)
  case Nil
  then show ?case by simp
next
  case (Cons v us)
  then show ?case using assms by simp
qed

lemma normalize_text_rewrite_stages: "normalize_text t = strip (rewrite_stages (strip t))"
  by (simp add: normalize_text_def rewrite_stages_def Let_def)

lemma rewrite_stages_join:
  "rewrite_stages (join [0xD0A4, 0xB85C, 0xBC14, 0xB974] (u # us))
     = join [0x6B, 0x56, 0x41, 0xB974] (map rewrite_stages (u # us))"
  using rewrite_stages_splits by (rule map_join)

lemma normalize_text_join:
  "normalize_text (join [0xD0A4, 0xB85C, 0xBC14, 0xB974] (u # vs @ [z]))
     = join [0x6B, 0x56, 0x41, 0xB974]
         (lstrip (rewrite_stages (lstrip u)) # map rewrite_stages vs
            @ [rstrip (rewrite_stages (rstrip z))])"
proof -
  have "strip (join [0xD0A4, 0xB85C, 0xBC14, 0xB974] (u # vs @ [z]))
      = join [0xD0A4, 0xB85C, 0xBC14, 0xB974] (lstrip u # vs @ [rstrip z])"
    using kvar_chars by (intro strip_join) simp_all
  then have "rewrite_stages (strip (join [0xD0A4, 0xB85C, 0xBC14, 0xB974] (u # vs @ [z])))
      = join [0x6B, 0x56, 0x41, 0xB974]
          (rewrite_stages (lstrip u) # map rewrite_stages vs @ [rewrite_stages (rstrip z)])"
    using rewrite_stages_join[of "lstrip u" "vs @ [rstrip z]"] by simp
  moreover have "strip (join [0x6B, 0x56, 0x41, 0xB974]
          (rewrite_stages (lstrip u) # map rewrite_stages vs @ [rewrite_stages (rstrip z)]))
      = join [0x6B, 0x56, 0x41, 0xB974]
         (lstrip (rewrite_stages (lstrip u)) # map rewrite_stages vs
            @ [rstrip (rewrite_stages (rstrip z))])"
    using kvar_chars by (intro strip_join) simp_all
  ultimately show ?thesis
    by (simp only: normalize_text_rewrite_stages)
qed

lemma rewrite_stages_digit:
  "rewrite_stages [0x31] = [0x31]" "rewrite_stages [0x32] = [0x32]"
  "rewrite_stages [0x33] = [0x33]"
  by (simp_all add: rewrite_stages_def normalize_eval re_sub.simps)

lemma leftmost_occurrence:
  assumes "sublist w t" and "w \<noteq> []"
  shows "\<exists>a b. t = a @ w @ b \<and> \<not> sublist w a"
proof -
  define P where "P n = (\<exists>a b. t = a @ w @ b \<and> length a = n)" for n
  from assms obtain a0 b0 where "t = a0 @ w @ b0"
    unfolding sublist_def by blast
  then have "P (length a0)"
    unfolding P_def by blast
  then obtain n where n: "P n" "\<forall>m<n. \<not> P m"
    using exists_least_iff[of P] by blast
  from n(1) obtain a b where ab: "t = a @ w @ b" "length a = n"
    unfolding P_def by blast
  have "\<not> sublist w a"
  proof
    assume "sublist w a"
    then obtain a1 a2 where a: "a = a1 @ w @ a2"
      unfolding sublist_def by blast
    then have "t = a1 @ w @ (a2 @ w @ b)"
      using ab(1) by simp
    then have "P (length a1)"
      unfolding P_def by blast
    moreover have "length a1 < n"
      using a ab(2) assms(2) by (cases w) simp_all
    ultimately show False
      using n(2) by blast
  qed
  with ab(1) show ?thesis by blast
qed

lemma split_at_occurrences:
  assumes "w \<noteq> []"
  shows "\<exists>ps. ps \<noteq> [] \<and> t = join w ps \<and> list_all (\<lambda>p. \<not> sublist w p) ps"
proof (induction t rule: length_induct)
  case (1 t)
  show ?case
  proof (cases "sublist w t")
    case False
    then have "[t] \<noteq> [] \<and> t = join w [t] \<and> list_all (\<lambda>p. \<not> sublist w p) [t]"
      by simp
    then show ?thesis by blast
  next
    case True
    then obtain a b where ab: "t = a @ w @ b" "\<not> sublist w a"
      using leftmost_occurrence[OF True assms] by blast
    have "length b < length t"
      using ab(1) assms by simp
    then obtain ps where ps: "ps \<noteq> []" "b = join w ps" "list_all (\<lambda>p. \<not> sublist w p) ps"
      using 1 by blast
    have "join w (a # ps) = a @ w @ join w ps"
      using ps(1) by (rule join_Cons)
    then have "a # ps \<noteq> [] \<and> t = join w (a # ps) \<and> list_all (\<lambda>p. \<not> sublist w p) (a # ps)"
      using ab ps by simp
    then show ?thesis by blast
  qed
qed

text \<open>
  Claim C10. The rules apply in the order of the table, and the rule for "kiroba"
  (\<open>0xD0A4 0xB85C 0xBC14\<close>, to \<open>kVA\<close>) is entry 10, before the rule for "kirobareu"
  (the same three syllables and \<open>0xB974\<close>, to \<open>kVar\<close>) at entry 12. So the later rule
  never fires: whatever the input, the text the first twelve rules leave has no match for
  it. And the normalizer rewrites each occurrence of "kirobareu" to \<open>kVA\<close> followed by the
  syllable \<open>0xB974\<close>, in place: cut an input at any number of its occurrences of the word,
  into the pieces \<open>u\<close>, \<open>vs\<close> and \<open>z\<close>; the result is the pieces, each rewritten on its own
  (the first stripped on the left, the last on the right), in the same order, with \<open>kVA\<close>
  and the syllable where each occurrence was. Every input can be cut at all its occurrences,
  into pieces that do not contain the word. So the result contains \<open>kVA\<close> and the
  syllable whenever the input contains the word, and the word itself never; for instance
  "100kirobareu" becomes \<open>100kVA\<close> followed by the syllable, not \<open>100kVar\<close>.
\<close>

theorem kvar_rule_never_fires:
  "UNIT_MAPPINGS ! 10 = ([0xD0A4, 0xB85C, 0xBC14], [0x6B, 0x56, 0x41])
   \<and> UNIT_MAPPINGS ! 12 = ([0xD0A4, 0xB85C, 0xBC14, 0xB974], [0x6B, 0x56, 0x61, 0x72])
   \<and> re_sub (literal [0xD0A4, 0xB85C, 0xBC14, 0xB974] [0x6B, 0x56, 0x61, 0x72])
        (apply_mappings (take 12 UNIT_MAPPINGS) s) = apply_mappings (take 12 UNIT_MAPPINGS) s
   \<and> normalize_text (join [0xD0A4, 0xB85C, 0xBC14, 0xB974] (u # vs @ [z]))
        = join [0x6B, 0x56, 0x41, 0xB974]
            (lstrip (rewrite_stages (lstrip u)) # map rewrite_stages vs
               @ [rstrip (rewrite_stages (rstrip z))])
   \<and> rewrite_stages (join [0xD0A4, 0xB85C, 0xBC14, 0xB974] (u # us))
        = join [0x6B, 0x56, 0x41, 0xB974] (map rewrite_stages (u # us))
   \<and> normalize_text t = strip (rewrite_stages (strip t))
   \<and> (\<exists>ps. ps \<noteq> [] \<and> t = join [0xD0A4, 0xB85C, 0xBC14, 0xB974] ps
          \<and> list_all (\<lambda>p. \<not> sublist [0xD0A4, 0xB85C, 0xBC14, 0xB974] p) ps)
   \<and> (sublist [0xD0A4, 0xB85C, 0xBC14, 0xB974] t
        \<longrightarrow> sublist [0x6B, 0x56, 0x41, 0xB974] (normalize_text t))
   \<and> \<not> sublist [0xD0A4, 0xB85C, 0xBC14, 0xB974] (normalize_text t)
   \<and> normalize_text [0x31, 0x30, 0x30, 0xD0A4, 0xB85C, 0xBC14, 0xB974]
        = [0x31, 0x30, 0x30, 0x6B, 0x56, 0x41, 0xB974]"
proof (intro conjI impI)
  have "[0xD0A4, 0xB85C, 0xBC14, 0xB974] \<in> set all_patterns"
    by (simp add: all_patterns_def UNIT_MAPPINGS_def)
  then show "\<not> sublist [0xD0A4, 0xB85C, 0xBC14, 0xB974] (normalize_text t)"
    using normal_normalize_text[of t] unfolding normal_def list_all_iff by blast
  show "UNIT_MAPPINGS ! 10 = ([0xD0A4, 0xB85C, 0xBC14], [0x6B, 0x56, 0x41])"
    by (simp add: UNIT_MAPPINGS_def)
  show "UNIT_MAPPINGS ! 12 = ([0xD0A4, 0xB85C, 0xBC14, 0xB974], [0x6B, 0x56, 0x61, 0x72])"
    by (simp add: UNIT_MAPPINGS_def)
  show "re_sub (literal [0xD0A4, 0xB85C, 0xBC14, 0xB974] [0x6B, 0x56, 0x61, 0x72])
        (apply_mappings (take 12 UNIT_MAPPINGS) s) = apply_mappings (take 12 UNIT_MAPPINGS) s"
    using kirobar_never_matches by (intro re_sub_fixed) (simp add: re_search_literal)
  show "normalize_text (join [0xD0A4, 0xB85C, 0xBC14, 0xB974] (u # vs @ [z]))
        = join [0x6B, 0x56, 0x41, 0xB974]
            (lstrip (rewrite_stages (lstrip u)) # map rewrite_stages vs
               @ [rstrip (rewrite_stages (rstrip z))])"
    by (rule normalize_text_join)
  show "rewrite_stages (join [0xD0A4, 0xB85C, 0xBC14, 0xB974] (u # us))
        = join [0x6B, 0x56, 0x41, 0xB974] (map rewrite_stages (u # us))"
    by (rule rewrite_stages_join)
  show "normalize_text t = strip (rewrite_stages (strip t))"
    by (rule normalize_text_rewrite_stages)
  show "\<exists>ps. ps \<noteq> [] \<and> t = join [0xD0A4, 0xB85C, 0xBC14, 0xB974] ps
          \<and> list_all (\<lambda>p. \<not> sublist [0xD0A4, 0xB85C, 0xBC14, 0xB974] p) ps"
    by (rule split_at_occurrences) simp
  show "sublist [0x6B, 0x56, 0x41, 0xB974] (normalize_text t)"
    if "sublist [0xD0A4, 0xB85C, 0xBC14, 0xB974] t"
    using that by (rule kirobar_becomes_kva)
  show "normalize_text [0x31, 0x30, 0x30, 0xD0A4, 0xB85C, 0xBC14, 0xB974]
        = [0x31, 0x30, 0x30, 0x6B, 0x56, 0x41, 0xB974]"
    by (rule normalize_text_100_kirobar)
qed

theorem kvar_rule_never_fires_witness:
  "normalize_text [0x31, 0xD0A4, 0xB85C, 0xBC14, 0xB974, 0x32, 0xD0A4, 0xB85C, 0xBC14, 0xB974,
        0x33]
     = [0x31, 0x6B, 0x56, 0x41, 0xB974, 0x32, 0x6B, 0x56, 0x41, 0xB974, 0x33]
   \<and> re_sub (literal [0xD0A4, 0xB85C, 0xBC14, 0xB974] [0x6B, 0x56, 0x61, 0x72])
        (apply_mappings (take 12 UNIT_MAPPINGS) [0x31, 0x30, 0x30, 0xD0A4, 0xB85C, 0xBC14, 0xB974])
     = apply_mappings (take 12 UNIT_MAPPINGS) [0x31, 0x30, 0x30, 0xD0A4, 0xB85C, 0xBC14, 0xB974]
   \<and> sublist [0xD0A4, 0xB85C, 0xBC14, 0xB974]
        ([0x31, 0x30, 0x30, 0xD0A4, 0xB85C, 0xBC14, 0xB974] :: pystr)
   \<and> sublist [0x6B, 0x56, 0x41, 0xB974]
        (normalize_text [0x31, 0x30, 0x30, 0xD0A4, 0xB85C, 0xBC14, 0xB974])
   \<and> normalize_text [0x31, 0x30, 0x30, 0xD0A4, 0xB85C, 0xBC14, 0xB974]
        = [0x31, 0x30, 0x30, 0x6B, 0x56, 0x41, 0xB974]"
proof -
  note inst = kvar_rule_never_fires[where s = "[0x31, 0x30, 0x30, 0xD0A4, 0xB85C, 0xBC14, 0xB974]"
      and t = "[0x31, 0x30, 0x30, 0xD0A4, 0xB85C, 0xBC14, 0xB974]"
      and u = "[0x31]" and vs = "[[0x32]]" and z = "[0x33]" and us = "[]"]
  have cut: "join [0xD0A4, 0xB85C, 0xBC14, 0xB974] ([0x31] # [[0x32]] @ [[0x33]])
      = [0x31, 0xD0A4, 0xB85C, 0xBC14, 0xB974, 0x32, 0xD0A4, 0xB85C, 0xBC14, 0xB974, 0x33]"
    by simp
  have pieces: "join [0x6B, 0x56, 0x41, 0xB974]
      (lstrip (rewrite_stages (lstrip [0x31])) # map rewrite_stages [[0x32]]
         @ [rstrip (rewrite_stages (rstrip [0x33]))])
      = [0x31, 0x6B, 0x56, 0x41, 0xB974, 0x32, 0x6B, 0x56, 0x41, 0xB974, 0x33]"
    by (simp add: rewrite_stages_digit lstrip_def rstrip_def is_space_def whitespace_table_def)
  have "normalize_text
      [0x31, 0xD0A4, 0xB85C, 0xBC14, 0xB974, 0x32, 0xD0A4, 0xB85C, 0xBC14, 0xB974, 0x33]
     = [0x31, 0x6B, 0x56, 0x41, 0xB974, 0x32, 0x6B, 0x56, 0x41, 0xB974, 0x33]"
    using inst unfolding cut pieces by blast
  moreover have "sublist [0xD0A4, 0xB85C, 0xBC14, 0xB974]
      [0x31, 0x30, 0x30, 0xD0A4, 0xB85C, 0xBC14, 0xB974 :: nat]"
    by (simp add: sublist_Cons_right)
  ultimately show ?thesis
    using inst by blast
qed

section \<open>Input validation accumulates its errors\<close>

lemma sublist_hd_in_set: "sublist p s \<Longrightarrow> p \<noteq> [] \<Longrightarrow> hd p \<in> set s"
  using set_mono_sublist[of p s] by (cases p) auto

lemma re_search_abbrev_letter:
  assumes "re_search (abbrev (l # ls) out) s"
  shows "\<exists>c\<in>set s. c \<in> set (case_variants l)"
proof -
  from assms obtain t where t: "suffix t s" "abbrev (l # ls) out t \<noteq> None"
    unfolding re_search_suffix by blast
  then obtain c cs where "t = c # cs" "c \<in> set (case_variants l)"
    by (cases t) (auto simp: abbrev_def split: option.splits if_splits)
  moreover have "set t \<subseteq> set s" using t(1) by (rule set_mono_suffix)
  ultimately show ?thesis by auto
qed

lemma tidy_no_space: "\<forall>c\<in>set s. \<not> is_space c \<Longrightarrow> tidy s"
  by (induction s) auto


lemma long_blocked_text_set: "set long_blocked_text = {0xD574, 0xD0B9, 0x61}"
  by (auto simp: long_blocked_text_def)

lemma long_blocked_text_normal: "normal long_blocked_text"
proof -
  have sp: "\<forall>c\<in>set long_blocked_text. \<not> is_space c"
    unfolding long_blocked_text_set by (simp add: is_space_def whitespace_table_def)
  have "long_blocked_text \<noteq> []" by (simp add: long_blocked_text_def)
  then have "hd long_blocked_text \<in> set long_blocked_text"
    "last long_blocked_text \<in> set long_blocked_text"
    by (rule hd_in_set, rule last_in_set)
  then have "strip long_blocked_text = long_blocked_text"
    using sp by (intro strip_fixed) blast
  moreover have "\<not> sublist p long_blocked_text" if "p \<in> set all_patterns" for p
  proof
    assume "sublist p long_blocked_text"
    moreover have "p \<noteq> []" using that patterns_clear_fixed by blast
    ultimately have "hd p \<in> {0xD574, 0xD0B9, 0x61}"
      using sublist_hd_in_set long_blocked_text_set by blast
    moreover have "\<forall>p\<in>set all_patterns. hd p \<notin> {0xD574, 0xD0B9, 0x61}"
      by (simp add: all_patterns_def UNIT_MAPPINGS_def TYPO_MAPPINGS_def)
    ultimately show False using that by blast
  qed
  moreover have "\<not> re_search pf_rule long_blocked_text"
  proof
    assume "re_search pf_rule long_blocked_text"
    then have "\<exists>c\<in>set long_blocked_text. c \<in> set (case_variants 0x70)"
      unfolding pf_rule_def pf_letters_def by (rule re_search_abbrev_letter)
    then show False
      unfolding long_blocked_text_set by (simp add: case_variants_def)
  qed
  moreover have "\<not> re_search cos_rule long_blocked_text"
  proof
    assume "re_search cos_rule long_blocked_text"
    then have "\<exists>c\<in>set long_blocked_text. c \<in> set (case_variants 0x63)"
      unfolding cos_rule_def cos_letters_def by (rule re_search_abbrev_letter)
    then show False
      unfolding long_blocked_text_set by (simp add: case_variants_def)
  qed
  moreover have "tidy long_blocked_text" using sp by (rule tidy_no_space)
  ultimately show ?thesis
    by (simp add: normal_def list_all_iff)
qed

lemma long_blocked_text_facts:
  "long_blocked_text \<noteq> []" "normalize_text long_blocked_text = long_blocked_text"
  "length long_blocked_text = 2003"
  "\<exists>p\<in>set blocked_patterns. re_search_alternatives p long_blocked_text"
proof -
  show "long_blocked_text \<noteq> []" "length long_blocked_text = 2003"
    by (simp_all add: long_blocked_text_def)
  show "normalize_text long_blocked_text = long_blocked_text"
    using long_blocked_text_normal by (rule normal_fixed)
  have "sublist [0xD574, 0xD0B9] long_blocked_text"
    unfolding long_blocked_text_def by (rule sublist_append_rightI)
  then show "\<exists>p\<in>set blocked_patterns. re_search_alternatives p long_blocked_text"
    by (simp add: blocked_patterns_def re_search_alternatives_def)
qed

text \<open>
  Claim C6. Input validation accumulates diagnostics without short-circuiting: the errors
  are the contributions of the text checks (too short, too long, blocked content, in this
  order), of the image check and of the presence check, each present exactly when its
  condition holds. In particular, for a text that after normalization is longer than 2000
  characters and matches a blocked pattern, the errors begin with the "too long" message
  followed by the inappropriate-content message.
\<close>

theorem input_errors_accumulate:
  "errors (validate_input request) =
     (if truthy_str (text request)
      then (if length (normalize_text (the (text request))) < min_length
            then [too_short_message] else []) @
           (if length (normalize_text (the (text request))) > max_length
            then [too_long_message] else []) @
           (if check_blocked_patterns (normalize_text (the (text request))) \<noteq> None
            then [blocked_message] else [])
      else []) @
     (if truthy_str (image_base64 request)
         \<and> estimate_base64_size (the (image_base64 request)) > max_size_bytes
      then [image_too_large_message] else []) @
     (if \<not> truthy_str (text request) \<and> \<not> truthy_str (image_base64 request)
      then [must_supply_message] else [])
   \<and> (text request = Some t \<and> 2000 < length (normalize_text t)
        \<and> (\<exists>p\<in>set blocked_patterns. re_search_alternatives p (normalize_text t))
      \<longrightarrow> (\<exists>rest. errors (validate_input request)
                  = too_long_message # blocked_message # rest))"
proof (intro conjI impI)
  show "errors (validate_input request) =
     (if truthy_str (text request)
      then (if length (normalize_text (the (text request))) < min_length
            then [too_short_message] else []) @
           (if length (normalize_text (the (text request))) > max_length
            then [too_long_message] else []) @
           (if check_blocked_patterns (normalize_text (the (text request))) \<noteq> None
            then [blocked_message] else [])
      else []) @
     (if truthy_str (image_base64 request)
         \<and> estimate_base64_size (the (image_base64 request)) > max_size_bytes
      then [image_too_large_message] else []) @
     (if \<not> truthy_str (text request) \<and> \<not> truthy_str (image_base64 request)
      then [must_supply_message] else [])"
    by (simp add: validate_input_errors text_errors_def image_errors_def min_length_def
        max_length_def check_blocked_patterns_def first_blocked_eq)
next
  assume a: "text request = Some t \<and> 2000 < length (normalize_text t)
        \<and> (\<exists>p\<in>set blocked_patterns. re_search_alternatives p (normalize_text t))"
  then have "t \<noteq> []"
    using normalize_text_Nil by auto
  with a show "\<exists>rest. errors (validate_input request)
                  = too_long_message # blocked_message # rest"
    by (simp add: validate_input_errors text_errors_def)
qed

theorem input_errors_accumulate_witness:
  "2000 < length (normalize_text long_blocked_text)
   \<and> (\<exists>p\<in>set blocked_patterns. re_search_alternatives p (normalize_text long_blocked_text))
   \<and> errors (validate_input \<lparr>text = Some long_blocked_text, image_base64 = None\<rparr>)
       = [too_long_message, blocked_message]"
  using input_errors_accumulate
      [of "\<lparr>text = Some long_blocked_text, image_base64 = None\<rparr>" long_blocked_text]
    long_blocked_text_facts
  by (simp add: min_length_def max_length_def check_blocked_patterns_def first_blocked_eq)

end
